theory Spec2Isabelle
  imports Main
begin

section \<open>Data model of \<open>GeneratorDataManager\<close>\<close>

text \<open>
  The class template \<open>GeneratorDataManager<GeneratorPtr, DataPtr, ReferencedType>\<close> of
  \<open>texturedatamanager_p.h\<close> is embedded over three type variables:
  \<^item> \<open>'g\<close> is \<open>GeneratorPtr\<close>, a shared-pointer handle. HOL equality on \<open>'g\<close> is the
    handle comparison \<open>operator==\<close> of the smart pointer (same pointee object), which
    is what \<open>QVector::contains\<close> uses in \<open>pendingGenerators\<close>.
  \<^item> The header compares generators with \<open>*a == *b\<close>; the generator classes are
    declared elsewhere, so the pointee is a parameter \<open>deref :: 'g \<Rightarrow> 'v\<close> (the
    immutable generator value a handle points to) and \<open>*a == *b\<close> is
    \<open>deref a = deref b\<close>.
  \<^item> \<open>DataPtr\<close> is \<open>'d option\<close>: \<open>None\<close> is the default-constructed (null)
    handle \<open>DataPtr()\<close>, for which \<open>!entry.data\<close> holds.
  \<^item> \<open>'r\<close> is \<open>ReferencedType\<close>, compared with its own \<open>operator==\<close> by
    \<open>QVector::contains\<close> and \<open>QVector::removeAll\<close>.

  Generator handles passed to the operations are not null (the header dereferences them
  unconditionally). The operations are run one after the other, so \<open>m_mutex\<close> is free
  whenever one of them starts.
\<close>

record ('g, 'r, 'd) Entry =
  generator :: 'g
  referencingObjects :: "'r list"
  data :: "'d option"

text \<open>
  Besides the vector \<open>m_data\<close>, the operations act on the mutex \<open>m_mutex\<close> and on the
  warning stream, and \<open>Q_ASSERT\<close> stops the program when its condition is false. These
  are recorded, in program order, in the list \<open>effects\<close>.
\<close>

datatype effect = MutexLock | MutexUnlock | QWarning string | QAssertFailed

record ('g, 'r, 'd) GeneratorDataManager =
  m_data :: "('g, 'r, 'd) Entry list"
  effects :: "effect list"

text \<open>The constructor \<open>GeneratorDataManager() {}\<close>: an empty vector, nothing done yet.\<close>

definition GeneratorDataManager_new :: "('g, 'r, 'd) GeneratorDataManager" where
  "GeneratorDataManager_new = \<lparr>m_data = [], effects = []\<rparr>"

text \<open>\<open>QMutexLocker lock(&m_mutex)\<close> locks in its constructor and unlocks when the
  scope is left, on every return.\<close>

definition QMutexLocker_lock ::
  "('g, 'r, 'd) GeneratorDataManager \<Rightarrow> ('g, 'r, 'd) GeneratorDataManager" where
  "QMutexLocker_lock s = s\<lparr>effects := effects s @ [MutexLock]\<rparr>"

definition QMutexLocker_unlock ::
  "('g, 'r, 'd) GeneratorDataManager \<Rightarrow> ('g, 'r, 'd) GeneratorDataManager" where
  "QMutexLocker_unlock s = s\<lparr>effects := effects s @ [MutexUnlock]\<rparr>"

definition qWarning ::
  "string \<Rightarrow> ('g, 'r, 'd) GeneratorDataManager \<Rightarrow> ('g, 'r, 'd) GeneratorDataManager" where
  "qWarning msg s = s\<lparr>effects := effects s @ [QWarning msg]\<rparr>"

section \<open>Private helpers\<close>

text \<open>
  \<open>findEntry\<close>: the loop \<open>for (int i = 0, sz = m_data.size(); i < sz; ++i)\<close>. The
  returned \<open>Entry*\<close> is the index of the entry in \<open>m_data\<close>; \<open>None\<close> is \<open>nullptr\<close>.
\<close>

function findEntry_loop ::
  "('g \<Rightarrow> 'v) \<Rightarrow> 'g \<Rightarrow> ('g, 'r, 'd) Entry list \<Rightarrow> nat \<Rightarrow> nat \<Rightarrow> nat option" where
  "findEntry_loop deref gen xs i sz =
     (if i < sz then
        (if deref (generator (xs ! i)) = deref gen then Some i
         else findEntry_loop deref gen xs (i + 1) sz)
      else None)"
  by pat_completeness auto
termination
  by (relation "measure (\<lambda>(deref, gen, xs, i, sz). sz - i)") auto

declare findEntry_loop.simps [simp del]

definition findEntry ::
  "('g \<Rightarrow> 'v) \<Rightarrow> 'g \<Rightarrow> ('g, 'r, 'd) GeneratorDataManager \<Rightarrow> nat option" where
  "findEntry deref gen s = findEntry_loop deref gen (m_data s) 0 (length (m_data s))"

text \<open>\<open>createEntry\<close>: a default-constructed entry with the generator set is appended;
  the pointer returned is \<open>&m_data.back()\<close>.\<close>

definition createEntry ::
  "'g \<Rightarrow> ('g, 'r, 'd) GeneratorDataManager
     \<Rightarrow> nat option \<times> ('g, 'r, 'd) GeneratorDataManager" where
  "createEntry gen s =
     (let newEntry = \<lparr>generator = gen, referencingObjects = [], data = None\<rparr>;
          s' = s\<lparr>m_data := m_data s @ [newEntry]\<rparr>
      in (Some (length (m_data s') - 1), s'))"

section \<open>Public operations\<close>

text \<open>
  \<open>requestData\<close>. When \<open>Q_ASSERT(entry)\<close> fails the program stops inside the call,
  with the mutex still held; \<open>effects_requestData\<close> below shows that this branch is
  never taken.
\<close>

definition requestData ::
  "('g \<Rightarrow> 'v) \<Rightarrow> 'g \<Rightarrow> 'r \<Rightarrow> ('g, 'r, 'd) GeneratorDataManager
     \<Rightarrow> bool \<times> ('g, 'r, 'd) GeneratorDataManager" where
  "requestData deref gen r s =
     (let s1 = QMutexLocker_lock s;
          found = findEntry deref gen s1;
          needsToBeCreated = (found = None);
          (entry, s2) = (if needsToBeCreated then createEntry gen s1 else (found, s1))
      in case entry of
           None \<Rightarrow> (needsToBeCreated, s2\<lparr>effects := effects s2 @ [QAssertFailed]\<rparr>)
         | Some i \<Rightarrow>
             (let e = m_data s2 ! i;
                  s3 = (if r \<notin> set (referencingObjects e)
                        then s2\<lparr>m_data := (m_data s2)
                               [i := e\<lparr>referencingObjects := referencingObjects e @ [r]\<rparr>]\<rparr>
                        else s2)
              in (needsToBeCreated, QMutexLocker_unlock s3)))"

text \<open>
  \<open>releaseData\<close>: the iterator loop over \<open>m_data\<close>. \<open>it\<close> is the position of the
  iterator and \<open>fin\<close> the position of \<open>m_data.end()\<close>, taken once before the loop;
  \<open>it\<close> starts at \<open>begin()\<close> and only moves forward, so \<open>it != end\<close> is \<open>it < fin\<close>.
  \<open>m_data.erase(it)\<close> is followed by \<open>return\<close>: the loop stops there.
\<close>

definition erase :: "nat \<Rightarrow> 'a list \<Rightarrow> 'a list" where
  "erase it xs = take it xs @ drop (Suc it) xs"

function releaseData_loop ::
  "('g \<Rightarrow> 'v) \<Rightarrow> 'g \<Rightarrow> 'r \<Rightarrow> ('g, 'r, 'd) Entry list \<Rightarrow> nat \<Rightarrow> nat
     \<Rightarrow> ('g, 'r, 'd) Entry list" where
  "releaseData_loop deref gen r xs it fin =
     (if it < fin then
        (if deref (generator (xs ! it)) = deref gen then
           (let refs = removeAll r (referencingObjects (xs ! it));
                xs' = xs[it := (xs ! it)\<lparr>referencingObjects := refs\<rparr>]
            in if refs = [] then erase it xs'
               else releaseData_loop deref gen r xs' (it + 1) fin)
         else releaseData_loop deref gen r xs (it + 1) fin)
      else xs)"
  by pat_completeness auto
termination
  by (relation "measure (\<lambda>(deref, gen, r, xs, it, fin). fin - it)") auto

declare releaseData_loop.simps [simp del]

definition releaseData ::
  "('g \<Rightarrow> 'v) \<Rightarrow> 'g \<Rightarrow> 'r \<Rightarrow> ('g, 'r, 'd) GeneratorDataManager
     \<Rightarrow> ('g, 'r, 'd) GeneratorDataManager" where
  "releaseData deref gen r s =
     (let s1 = QMutexLocker_lock s;
          s2 = s1\<lparr>m_data := releaseData_loop deref gen r (m_data s1) 0 (length (m_data s1))\<rparr>
      in QMutexLocker_unlock s2)"

definition getData ::
  "('g \<Rightarrow> 'v) \<Rightarrow> 'g \<Rightarrow> ('g, 'r, 'd) GeneratorDataManager
     \<Rightarrow> 'd option \<times> ('g, 'r, 'd) GeneratorDataManager" where
  "getData deref gen s =
     (let s1 = QMutexLocker_lock s;
          ret = (case findEntry deref gen s1 of
                   Some entry \<Rightarrow> data (m_data s1 ! entry)
                 | None \<Rightarrow> None)
      in (ret, QMutexLocker_unlock s1))"

text \<open>\<open>pendingGenerators\<close>: the range-based \<open>for\<close> over \<open>m_data\<close>, accumulating \<open>ret\<close>;
  \<open>ret.contains\<close> compares handles.\<close>

definition pendingGenerators_step :: "'g list \<Rightarrow> ('g, 'r, 'd) Entry \<Rightarrow> 'g list" where
  "pendingGenerators_step ret entry =
     (if data entry = None \<and> generator entry \<notin> set ret
      then ret @ [generator entry] else ret)"

definition pendingGenerators ::
  "('g, 'r, 'd) GeneratorDataManager \<Rightarrow> 'g list \<times> ('g, 'r, 'd) GeneratorDataManager" where
  "pendingGenerators s =
     (let s1 = QMutexLocker_lock s;
          ret = foldl pendingGenerators_step [] (m_data s1)
      in (ret, QMutexLocker_unlock s1))"

definition assignData ::
  "('g \<Rightarrow> 'v) \<Rightarrow> 'g \<Rightarrow> 'd option \<Rightarrow> ('g, 'r, 'd) GeneratorDataManager
     \<Rightarrow> ('g, 'r, 'd) GeneratorDataManager" where
  "assignData deref gen dat s =
     (let s1 = QMutexLocker_lock s
      in case findEntry deref gen s1 of
           None \<Rightarrow>
             QMutexLocker_unlock
               (qWarning ''[TextureDataManager] assignData() called with non-existent generator'' s1)
         | Some entry \<Rightarrow>
             QMutexLocker_unlock
               (s1\<lparr>m_data := (m_data s1)[entry := (m_data s1 ! entry)\<lparr>data := dat\<rparr>]\<rparr>))"

text \<open>\<open>contains\<close> calls \<open>findEntry\<close> directly; its body constructs no \<open>QMutexLocker\<close>.\<close>

definition contains ::
  "('g \<Rightarrow> 'v) \<Rightarrow> 'g \<Rightarrow> ('g, 'r, 'd) GeneratorDataManager
     \<Rightarrow> bool \<times> ('g, 'r, 'd) GeneratorDataManager" where
  "contains deref gen s = (findEntry deref gen s \<noteq> None, s)"

section \<open>Sequences of calls\<close>

text \<open>A client of the class can only call the six public member functions. A state the
  cache can be in is the result of running some list of calls on a new manager.\<close>

datatype ('g, 'r, 'd) call =
    RequestData 'g 'r
  | ReleaseData 'g 'r
  | GetData 'g
  | PendingGenerators
  | AssignData 'g "'d option"
  | Contains 'g

fun perform ::
  "('g \<Rightarrow> 'v) \<Rightarrow> ('g, 'r, 'd) GeneratorDataManager \<Rightarrow> ('g, 'r, 'd) call
     \<Rightarrow> ('g, 'r, 'd) GeneratorDataManager" where
  "perform deref s (RequestData gen r) = snd (requestData deref gen r s)"
| "perform deref s (ReleaseData gen r) = releaseData deref gen r s"
| "perform deref s (GetData gen) = snd (getData deref gen s)"
| "perform deref s PendingGenerators = snd (pendingGenerators s)"
| "perform deref s (AssignData gen dat) = assignData deref gen dat s"
| "perform deref s (Contains gen) = snd (contains deref gen s)"

definition run ::
  "('g \<Rightarrow> 'v) \<Rightarrow> ('g, 'r, 'd) call list \<Rightarrow> ('g, 'r, 'd) GeneratorDataManager" where
  "run deref calls = foldl (perform deref) GeneratorDataManager_new calls"

section \<open>Invariants\<close>

text \<open>No two entries hold value-equal generators.\<close>

definition unique_generators :: "('g \<Rightarrow> 'v) \<Rightarrow> ('g, 'r, 'd) Entry list \<Rightarrow> bool" where
  "unique_generators deref xs = distinct (map (\<lambda>e. deref (generator e)) xs)"

text \<open>Every entry is referenced by somebody, and nobody is recorded twice.\<close>

definition all_referenced :: "('g, 'r, 'd) Entry list \<Rightarrow> bool" where
  "all_referenced xs = list_all (\<lambda>e. referencingObjects e \<noteq> []) xs"

definition no_duplicate_referencers :: "('g, 'r, 'd) Entry list \<Rightarrow> bool" where
  "no_duplicate_referencers xs = list_all (\<lambda>e. distinct (referencingObjects e)) xs"

text \<open>
  The effect of the loop of \<open>releaseData\<close> on the vector, written by recursion on the
  list; \<open>releaseData_loop_entries\<close> below proves that the iterator loop computes it.
\<close>

fun releaseData_entries ::
  "('g \<Rightarrow> 'v) \<Rightarrow> 'g \<Rightarrow> 'r \<Rightarrow> ('g, 'r, 'd) Entry list \<Rightarrow> ('g, 'r, 'd) Entry list" where
  "releaseData_entries deref gen r [] = []"
| "releaseData_entries deref gen r (e # es) =
     (if deref (generator e) = deref gen then
        (if removeAll r (referencingObjects e) = [] then es
         else e\<lparr>referencingObjects := removeAll r (referencingObjects e)\<rparr>
                # releaseData_entries deref gen r es)
      else e # releaseData_entries deref gen r es)"

text \<open>
  The referencers currently recorded for a generator value: everybody listed by an entry
  whose generator is value-equal to \<open>gen\<close>.
\<close>

definition referencers ::
  "('g \<Rightarrow> 'v) \<Rightarrow> 'g \<Rightarrow> ('g, 'r, 'd) GeneratorDataManager \<Rightarrow> 'r set" where
  "referencers deref gen s =
     set (concat (map referencingObjects
       (filter (\<lambda>e. deref (generator e) = deref gen) (m_data s))))"

text \<open>Calls that hand an empty data handle to \<open>assignData\<close>.\<close>

fun assigns_empty :: "('g, 'r, 'd) call \<Rightarrow> bool" where
  "assigns_empty (AssignData gen dat) = (dat = None)"
| "assigns_empty c = False"

text \<open>
  For the worked examples: handles are numbers, and handle \<open>p\<close> points to the generator
  value \<open>p div 10\<close>, so that \<open>10\<close> and \<open>11\<close> are two instances of one generator and
  \<open>20\<close> is another generator. Referencers and data are numbers as well.
\<close>

definition pointee :: "nat \<Rightarrow> nat" where
  "pointee p = p div 10"

type_synonym example_manager = "(nat, nat, nat) GeneratorDataManager"

section \<open>The lookup loop\<close>

lemma findEntry_loop_Some:
  "findEntry_loop deref gen xs i sz = Some k \<Longrightarrow>
     i \<le> k \<and> k < sz \<and> deref (generator (xs ! k)) = deref gen \<and>
     (\<forall>j. i \<le> j \<and> j < k \<longrightarrow> deref (generator (xs ! j)) \<noteq> deref gen)"
proof (induction deref gen xs i sz rule: findEntry_loop.induct)
  case (1 deref gen xs i sz)
  show ?case
  proof (cases "i < sz \<and> deref (generator (xs ! i)) \<noteq> deref gen")
    case True
    then have "findEntry_loop deref gen xs (i + 1) sz = Some k"
      using "1.prems" by (simp add: findEntry_loop.simps [of deref gen xs i sz])
    with True "1.IH" have ih: "i + 1 \<le> k \<and> k < sz \<and> deref (generator (xs ! k)) = deref gen \<and>
       (\<forall>j. i + 1 \<le> j \<and> j < k \<longrightarrow> deref (generator (xs ! j)) \<noteq> deref gen)"
      by simp
    have "\<And>j. i \<le> j \<Longrightarrow> j < k \<Longrightarrow> deref (generator (xs ! j)) \<noteq> deref gen"
    proof -
      fix j assume "i \<le> j" "j < k"
      then consider "j = i" | "i + 1 \<le> j" by linarith
      then show "deref (generator (xs ! j)) \<noteq> deref gen"
        using True ih \<open>j < k\<close> by cases auto
    qed
    with ih show ?thesis by simp
  next
    case False
    then show ?thesis using "1.prems"
      by (auto simp: findEntry_loop.simps [of deref gen xs i sz] split: if_splits)
  qed
qed

lemma findEntry_loop_None:
  "findEntry_loop deref gen xs i sz = None \<Longrightarrow> i \<le> j \<Longrightarrow> j < sz \<Longrightarrow>
     deref (generator (xs ! j)) \<noteq> deref gen"
proof (induction deref gen xs i sz rule: findEntry_loop.induct)
  case (1 deref gen xs i sz)
  note unfold = findEntry_loop.simps [of deref gen xs i sz]
  from "1.prems" have lt: "i < sz" by simp
  with "1.prems" have ne: "deref (generator (xs ! i)) \<noteq> deref gen"
    by (auto simp: unfold split: if_splits)
  with lt "1.prems" have rec: "findEntry_loop deref gen xs (i + 1) sz = None"
    by (simp add: unfold)
  show ?case
  proof (cases "j = i")
    case True
    with ne show ?thesis by simp
  next
    case False
    with "1.prems" have "i + 1 \<le> j" by simp
    with "1.IH" lt ne rec "1.prems" show ?thesis by simp
  qed
qed

lemma findEntry_None_iff:
  "findEntry deref gen s = None \<longleftrightarrow> (\<forall>e \<in> set (m_data s). deref (generator e) \<noteq> deref gen)"
proof
  assume n: "findEntry deref gen s = None"
  show "\<forall>e \<in> set (m_data s). deref (generator e) \<noteq> deref gen"
  proof
    fix e assume "e \<in> set (m_data s)"
    then obtain j where "j < length (m_data s)" "m_data s ! j = e"
      by (auto simp: in_set_conv_nth)
    with findEntry_loop_None [of deref gen "m_data s" 0 "length (m_data s)" j] n
    show "deref (generator e) \<noteq> deref gen" by (simp add: findEntry_def)
  qed
next
  assume a: "\<forall>e \<in> set (m_data s). deref (generator e) \<noteq> deref gen"
  show "findEntry deref gen s = None"
  proof (cases "findEntry deref gen s")
    case None then show ?thesis .
  next
    case (Some k)
    then have "k < length (m_data s) \<and> deref (generator (m_data s ! k)) = deref gen"
      using findEntry_loop_Some [of deref gen "m_data s" 0 "length (m_data s)" k]
      by (simp add: findEntry_def)
    with a show ?thesis by (metis nth_mem)
  qed
qed

lemma findEntry_Some_iff:
  "findEntry deref gen s = Some k \<longleftrightarrow>
     k < length (m_data s) \<and> deref (generator (m_data s ! k)) = deref gen \<and>
     (\<forall>j < k. deref (generator (m_data s ! j)) \<noteq> deref gen)"
proof
  assume "findEntry deref gen s = Some k"
  then show "k < length (m_data s) \<and> deref (generator (m_data s ! k)) = deref gen \<and>
     (\<forall>j < k. deref (generator (m_data s ! j)) \<noteq> deref gen)"
    using findEntry_loop_Some [of deref gen "m_data s" 0 "length (m_data s)" k]
    by (simp add: findEntry_def)
next
  assume a: "k < length (m_data s) \<and> deref (generator (m_data s ! k)) = deref gen \<and>
     (\<forall>j < k. deref (generator (m_data s ! j)) \<noteq> deref gen)"
  show "findEntry deref gen s = Some k"
  proof (cases "findEntry deref gen s")
    case None
    with a show ?thesis by (metis findEntry_None_iff nth_mem)
  next
    case (Some k')
    then have k': "k' < length (m_data s) \<and> deref (generator (m_data s ! k')) = deref gen \<and>
       (\<forall>j < k'. deref (generator (m_data s ! j)) \<noteq> deref gen)"
      using findEntry_loop_Some [of deref gen "m_data s" 0 "length (m_data s)" k']
      by (simp add: findEntry_def)
    with a have "k' = k" by (meson linorder_neqE_nat)
    with Some show ?thesis by simp
  qed
qed

section \<open>The release loop\<close>

lemma releaseData_loop_entries:
  "fin = length xs \<Longrightarrow> it \<le> fin \<Longrightarrow>
     releaseData_loop deref gen r xs it fin
       = take it xs @ releaseData_entries deref gen r (drop it xs)"
proof (induction deref gen r xs it fin rule: releaseData_loop.induct)
  case (1 deref gen r xs it fin)
  note unfold = releaseData_loop.simps [of deref gen r xs it fin]
  show ?case
  proof (cases "it < fin")
    case False
    with "1.prems" show ?thesis by (subst unfold) simp
  next
    case lt: True
    with "1.prems" have d: "drop it xs = xs ! it # drop (Suc it) xs"
      by (simp add: Cons_nth_drop_Suc)
    show ?thesis
    proof (cases "deref (generator (xs ! it)) = deref gen")
      case False
      with lt "1.IH"(2) "1.prems"
      have "releaseData_loop deref gen r xs (it + 1) fin
              = take (it + 1) xs @ releaseData_entries deref gen r (drop (it + 1) xs)"
        by simp
      with False lt d "1.prems" show ?thesis
        by (subst unfold) (simp add: take_Suc_conv_app_nth)
    next
      case m: True
      define refs where "refs = removeAll r (referencingObjects (xs ! it))"
      define xs' where "xs' = xs[it := (xs ! it)\<lparr>referencingObjects := refs\<rparr>]"
      show ?thesis
      proof (cases "refs = []")
        case True
        with m lt d "1.prems" show ?thesis
          by (subst unfold) (simp add: refs_def erase_def Let_def)
      next
        case False
        have len: "fin = length xs'" using "1.prems" by (simp add: xs'_def)
        from "1.IH"(1) [OF lt m refs_def xs'_def False len] lt
        have "releaseData_loop deref gen r xs' (it + 1) fin
                = take (it + 1) xs' @ releaseData_entries deref gen r (drop (it + 1) xs')"
          by simp
        moreover have "take (it + 1) xs' = take it xs @ [(xs ! it)\<lparr>referencingObjects := refs\<rparr>]"
          using lt "1.prems" by (simp add: xs'_def take_Suc_conv_app_nth)
        moreover have "drop (it + 1) xs' = drop (Suc it) xs"
          by (simp add: xs'_def)
        ultimately show ?thesis using m lt d False "1.prems"
          by (subst unfold) (simp add: refs_def xs'_def Let_def)
      qed
    qed
  qed
qed

lemma m_data_releaseData:
  "m_data (releaseData deref gen r s) = releaseData_entries deref gen r (m_data s)"
  by (simp add: releaseData_def QMutexLocker_lock_def QMutexLocker_unlock_def
      releaseData_loop_entries)

section \<open>What each operation does to \<open>m_data\<close>\<close>

lemma findEntry_lock [simp]:
  "findEntry deref gen (QMutexLocker_lock s) = findEntry deref gen s"
  by (simp add: findEntry_def QMutexLocker_lock_def)

lemma m_data_lock [simp]: "m_data (QMutexLocker_lock s) = m_data s"
  by (simp add: QMutexLocker_lock_def)

lemma m_data_unlock [simp]: "m_data (QMutexLocker_unlock s) = m_data s"
  by (simp add: QMutexLocker_unlock_def)

lemma m_data_qWarning [simp]: "m_data (qWarning msg s) = m_data s"
  by (simp add: qWarning_def)

lemma fst_requestData:
  "fst (requestData deref gen r s) = (findEntry deref gen s = None)"
  by (simp add: requestData_def Let_def split: prod.splits option.splits)

lemma m_data_requestData_new:
  assumes "findEntry deref gen s = None"
  shows "m_data (snd (requestData deref gen r s))
           = m_data s @ [\<lparr>generator = gen, referencingObjects = [r], data = None\<rparr>]"
  using assms
  by (simp add: requestData_def createEntry_def Let_def nth_append list_update_append)

lemma m_data_requestData_old:
  assumes "findEntry deref gen s = Some i"
  shows "m_data (snd (requestData deref gen r s))
           = (if r \<in> set (referencingObjects (m_data s ! i)) then m_data s
              else (m_data s)[i := (m_data s ! i)
                     \<lparr>referencingObjects := referencingObjects (m_data s ! i) @ [r]\<rparr>])"
  using assms
  by (simp add: requestData_def Let_def)

lemma m_data_assignData:
  "m_data (assignData deref gen dat s)
     = (case findEntry deref gen s of
          None \<Rightarrow> m_data s
        | Some i \<Rightarrow> (m_data s)[i := (m_data s ! i)\<lparr>data := dat\<rparr>])"
  by (simp add: assignData_def Let_def split: option.splits)

lemma fst_getData:
  "fst (getData deref gen s)
     = (case findEntry deref gen s of None \<Rightarrow> None | Some i \<Rightarrow> data (m_data s ! i))"
  by (simp add: getData_def Let_def split: option.splits)

lemma m_data_getData [simp]: "m_data (snd (getData deref gen s)) = m_data s"
  by (simp add: getData_def Let_def)

lemma m_data_pendingGenerators [simp]: "m_data (snd (pendingGenerators s)) = m_data s"
  by (simp add: pendingGenerators_def Let_def)

lemma fst_pendingGenerators:
  "fst (pendingGenerators s) = foldl pendingGenerators_step [] (m_data s)"
  by (simp add: pendingGenerators_def Let_def)

lemma fst_contains:
  "fst (contains deref gen s) \<longleftrightarrow> (\<exists>e \<in> set (m_data s). deref (generator e) = deref gen)"
  using findEntry_None_iff [of deref gen s] by (auto simp: contains_def)

lemma releaseData_entries_unknown:
  "\<forall>e \<in> set xs. deref (generator e) \<noteq> deref gen \<Longrightarrow> releaseData_entries deref gen r xs = xs"
  by (induction xs) auto

lemma effects_requestData:
  "effects (snd (requestData deref gen r s)) = effects s @ [MutexLock, MutexUnlock]"
  by (simp add: requestData_def createEntry_def Let_def
      QMutexLocker_lock_def QMutexLocker_unlock_def split: option.splits prod.splits)

lemma effects_releaseData:
  "effects (releaseData deref gen r s) = effects s @ [MutexLock, MutexUnlock]"
  by (simp add: releaseData_def Let_def QMutexLocker_lock_def QMutexLocker_unlock_def)

lemma effects_getData:
  "effects (snd (getData deref gen s)) = effects s @ [MutexLock, MutexUnlock]"
  by (simp add: getData_def Let_def QMutexLocker_lock_def QMutexLocker_unlock_def)

lemma effects_pendingGenerators:
  "effects (snd (pendingGenerators s)) = effects s @ [MutexLock, MutexUnlock]"
  by (simp add: pendingGenerators_def Let_def QMutexLocker_lock_def QMutexLocker_unlock_def)

lemma effects_assignData:
  "effects (assignData deref gen dat s) =
     effects s @ (case findEntry deref gen s of
        None \<Rightarrow> [MutexLock,
          QWarning ''[TextureDataManager] assignData() called with non-existent generator'',
          MutexUnlock]
      | Some i \<Rightarrow> [MutexLock, MutexUnlock])"
  by (simp add: assignData_def Let_def QMutexLocker_lock_def QMutexLocker_unlock_def
      qWarning_def findEntry_def split: option.splits)

section \<open>Invariants are kept by every operation\<close>

lemma keys_list_update:
  "i < length xs \<Longrightarrow> generator e' = generator (xs ! i) \<Longrightarrow>
     map (\<lambda>e. deref (generator e)) (xs[i := e']) = map (\<lambda>e. deref (generator e)) xs"
  by (simp add: map_update list_update_same_conv)

lemma list_all_list_update:
  "list_all P xs \<Longrightarrow> P e' \<Longrightarrow> list_all P (xs[i := e'])"
  using set_update_subset_insert [of xs i e'] by (auto simp: list_all_iff)

lemma keys_releaseData_entries:
  "set (map (\<lambda>e. deref (generator e)) (releaseData_entries deref gen r xs))
     \<subseteq> set (map (\<lambda>e. deref (generator e)) xs)"
  by (induction xs) auto

lemma unique_releaseData_entries:
  "unique_generators deref xs \<Longrightarrow> unique_generators deref (releaseData_entries deref gen r xs)"
  unfolding unique_generators_def
proof (induction xs)
  case Nil
  then show ?case by simp
next
  case (Cons e es)
  then show ?case
    using keys_releaseData_entries [of deref gen r es] by auto
qed

lemma unique_requestData:
  assumes "unique_generators deref (m_data s)"
  shows "unique_generators deref (m_data (snd (requestData deref gen r s)))"
proof (cases "findEntry deref gen s")
  case None
  then have "deref gen \<notin> set (map (\<lambda>e. deref (generator e)) (m_data s))"
    by (auto simp: findEntry_None_iff)
  with assms None show ?thesis
    by (simp add: m_data_requestData_new unique_generators_def)
next
  case (Some i)
  then have "i < length (m_data s)" by (simp add: findEntry_Some_iff)
  with assms Some show ?thesis
    by (simp add: m_data_requestData_old unique_generators_def keys_list_update)
qed

lemma unique_assignData:
  assumes "unique_generators deref (m_data s)"
  shows "unique_generators deref (m_data (assignData deref gen dat s))"
proof (cases "findEntry deref gen s")
  case None
  with assms show ?thesis by (simp add: m_data_assignData)
next
  case (Some i)
  then have "i < length (m_data s)" by (simp add: findEntry_Some_iff)
  with assms Some show ?thesis
    by (simp add: m_data_assignData unique_generators_def keys_list_update)
qed

lemma unique_perform:
  "unique_generators deref (m_data s) \<Longrightarrow> unique_generators deref (m_data (perform deref s c))"
  by (cases c)
    (simp_all add: unique_requestData unique_assignData m_data_releaseData
      unique_releaseData_entries contains_def)

lemma run_snoc: "run deref (calls @ [c]) = perform deref (run deref calls) c"
  by (simp add: run_def)

lemma run_Nil: "run deref [] = GeneratorDataManager_new"
  by (simp add: run_def)

lemma unique_run: "unique_generators deref (m_data (run deref calls))"
proof (induction calls rule: rev_induct)
  case Nil
  show ?case by (simp add: run_Nil GeneratorDataManager_new_def unique_generators_def)
next
  case (snoc c calls)
  then show ?case by (simp add: run_snoc unique_perform)
qed

lemma referenced_releaseData_entries:
  "all_referenced xs \<Longrightarrow> all_referenced (releaseData_entries deref gen r xs)"
  unfolding all_referenced_def by (induction xs) auto

lemma referenced_requestData:
  assumes "all_referenced (m_data s)"
  shows "all_referenced (m_data (snd (requestData deref gen r s)))"
proof (cases "findEntry deref gen s")
  case None
  with assms show ?thesis
    by (simp add: m_data_requestData_new all_referenced_def)
next
  case (Some i)
  with assms show ?thesis
    by (simp add: m_data_requestData_old all_referenced_def list_all_list_update)
qed

lemma referenced_assignData:
  assumes "all_referenced (m_data s)"
  shows "all_referenced (m_data (assignData deref gen dat s))"
proof (cases "findEntry deref gen s")
  case None
  with assms show ?thesis by (simp add: m_data_assignData)
next
  case (Some i)
  then have "i < length (m_data s)" by (simp add: findEntry_Some_iff)
  then have "referencingObjects (m_data s ! i) \<noteq> []"
    using assms by (simp add: all_referenced_def list_all_length)
  with assms Some show ?thesis
    by (simp add: m_data_assignData all_referenced_def list_all_list_update)
qed

lemma referenced_perform:
  "all_referenced (m_data s) \<Longrightarrow> all_referenced (m_data (perform deref s c))"
  by (cases c)
    (simp_all add: referenced_requestData referenced_assignData m_data_releaseData
      referenced_releaseData_entries contains_def)

lemma referenced_run: "all_referenced (m_data (run deref calls))"
proof (induction calls rule: rev_induct)
  case Nil
  show ?case by (simp add: run_Nil GeneratorDataManager_new_def all_referenced_def)
next
  case (snoc c calls)
  then show ?case by (simp add: run_snoc referenced_perform)
qed

lemma no_duplicates_releaseData_entries:
  "no_duplicate_referencers xs \<Longrightarrow> no_duplicate_referencers (releaseData_entries deref gen r xs)"
  unfolding no_duplicate_referencers_def by (induction xs) (auto simp: distinct_removeAll)

lemma no_duplicates_requestData:
  assumes "no_duplicate_referencers (m_data s)"
  shows "no_duplicate_referencers (m_data (snd (requestData deref gen r s)))"
proof (cases "findEntry deref gen s")
  case None
  with assms show ?thesis
    by (simp add: m_data_requestData_new no_duplicate_referencers_def)
next
  case (Some i)
  then have "i < length (m_data s)" by (simp add: findEntry_Some_iff)
  then have "distinct (referencingObjects (m_data s ! i))"
    using assms by (simp add: no_duplicate_referencers_def list_all_length)
  with assms Some show ?thesis
    by (simp add: m_data_requestData_old no_duplicate_referencers_def list_all_list_update)
qed

lemma no_duplicates_assignData:
  assumes "no_duplicate_referencers (m_data s)"
  shows "no_duplicate_referencers (m_data (assignData deref gen dat s))"
proof (cases "findEntry deref gen s")
  case None
  with assms show ?thesis by (simp add: m_data_assignData)
next
  case (Some i)
  then have "i < length (m_data s)" by (simp add: findEntry_Some_iff)
  then have "distinct (referencingObjects (m_data s ! i))"
    using assms by (simp add: no_duplicate_referencers_def list_all_length)
  with assms Some show ?thesis
    by (simp add: m_data_assignData no_duplicate_referencers_def list_all_list_update)
qed

lemma no_duplicates_perform:
  "no_duplicate_referencers (m_data s) \<Longrightarrow> no_duplicate_referencers (m_data (perform deref s c))"
  by (cases c)
    (simp_all add: no_duplicates_requestData no_duplicates_assignData m_data_releaseData
      no_duplicates_releaseData_entries contains_def)

lemma no_duplicates_run: "no_duplicate_referencers (m_data (run deref calls))"
proof (induction calls rule: rev_induct)
  case Nil
  show ?case by (simp add: run_Nil GeneratorDataManager_new_def no_duplicate_referencers_def)
next
  case (snoc c calls)
  then show ?case by (simp add: run_snoc no_duplicates_perform)
qed

section \<open>The entry a request leaves behind\<close>

lemma requestData_found:
  "\<exists>i. findEntry deref gen (snd (requestData deref gen r s)) = Some i
       \<and> r \<in> set (referencingObjects (m_data (snd (requestData deref gen r s)) ! i))
       \<and> (findEntry deref gen s = None \<longrightarrow>
            m_data (snd (requestData deref gen r s)) ! i
              = \<lparr>generator = gen, referencingObjects = [r], data = None\<rparr>)"
proof (cases "findEntry deref gen s")
  case None
  let ?new = "\<lparr>generator = gen, referencingObjects = [r], data = None :: 'd option\<rparr>"
  have m: "m_data (snd (requestData deref gen r s)) = m_data s @ [?new]"
    using None by (rule m_data_requestData_new)
  have "\<forall>j < length (m_data s). deref (generator (m_data s ! j)) \<noteq> deref gen"
    using None by (simp add: findEntry_None_iff)
  then have "findEntry deref gen (snd (requestData deref gen r s)) = Some (length (m_data s))"
    by (simp add: findEntry_Some_iff m nth_append)
  with None show ?thesis by (simp add: m)
next
  case (Some i)
  then have i: "i < length (m_data s)" "deref (generator (m_data s ! i)) = deref gen"
    "\<forall>j < i. deref (generator (m_data s ! j)) \<noteq> deref gen"
    by (simp_all add: findEntry_Some_iff)
  have m: "m_data (snd (requestData deref gen r s))
           = (if r \<in> set (referencingObjects (m_data s ! i)) then m_data s
              else (m_data s)[i := (m_data s ! i)
                     \<lparr>referencingObjects := referencingObjects (m_data s ! i) @ [r]\<rparr>])"
    using Some by (rule m_data_requestData_old)
  have "findEntry deref gen (snd (requestData deref gen r s)) = Some i"
    using i by (simp add: findEntry_Some_iff m)
  moreover have "r \<in> set (referencingObjects (m_data (snd (requestData deref gen r s)) ! i))"
    using i by (simp add: m)
  ultimately show ?thesis using Some by simp
qed

lemma filter_unique_key:
  "distinct (map f xs) \<Longrightarrow> e \<in> set xs \<Longrightarrow> length (filter (\<lambda>x. f x = f e) xs) = 1"
proof (induction xs)
  case Nil
  then show ?case by simp
next
  case (Cons x xs)
  show ?case
  proof (cases "f x = f e")
    case True
    with Cons.prems have "\<forall>y \<in> set xs. f y \<noteq> f e" by (metis distinct.simps(2) image_eqI list.simps(9) set_map)
    then have "filter (\<lambda>x. f x = f e) xs = []" by (simp add: filter_empty_conv)
    with True show ?thesis by simp
  next
    case False
    with Cons show ?thesis by auto
  qed
qed

lemma removeAll_empty_iff: "removeAll r rs = [] \<longleftrightarrow> (\<forall>r' \<in> set rs. r' = r)"
  by (induction rs) auto

lemma findEntry_value:
  assumes "deref g1 = deref g2"
  shows "findEntry deref g1 s = findEntry deref g2 s"
proof (cases "findEntry deref g2 s")
  case None
  then have "findEntry deref g1 s = None"
    using assms by (simp add: findEntry_None_iff)
  with None show ?thesis by simp
next
  case (Some k)
  then have "findEntry deref g1 s = Some k"
    using assms by (simp add: findEntry_Some_iff)
  with Some show ?thesis by simp
qed

lemma survives_releaseData_entries:
  "unique_generators deref xs \<Longrightarrow>
     (\<exists>e \<in> set (releaseData_entries deref gen r xs). deref (generator e) = deref gen)
       \<longleftrightarrow> (\<exists>e \<in> set xs. deref (generator e) = deref gen
              \<and> (\<exists>r' \<in> set (referencingObjects e). r' \<noteq> r))"
proof (induction xs)
  case Nil
  then show ?case by simp
next
  case (Cons x xs)
  show ?case
  proof (cases "deref (generator x) = deref gen")
    case False
    with Cons show ?thesis by (simp add: unique_generators_def)
  next
    case True
    with Cons.prems have no: "\<forall>e \<in> set xs. deref (generator e) \<noteq> deref gen"
      by (force simp: unique_generators_def)
    then have same: "releaseData_entries deref gen r xs = xs"
      by (rule releaseData_entries_unknown)
    show ?thesis
    proof (cases "removeAll r (referencingObjects x) = []")
      case True
      with \<open>deref (generator x) = deref gen\<close> no show ?thesis
        by (auto simp: removeAll_empty_iff)
    next
      case False
      with \<open>deref (generator x) = deref gen\<close> no same show ?thesis
        by (auto simp: removeAll_empty_iff)
    qed
  qed
qed

section \<open>Looking entries up after an update\<close>

lemma findEntry_same_keys:
  assumes "map (\<lambda>e. deref (generator e)) (m_data t) = map (\<lambda>e. deref (generator e)) (m_data s)"
  shows "findEntry deref gen t = findEntry deref gen s"
proof -
  from assms have len: "length (m_data t) = length (m_data s)"
    by (metis length_map)
  have nth: "deref (generator (m_data t ! j)) = deref (generator (m_data s ! j))"
    if "j < length (m_data s)" for j
  proof -
    from that len have "map (\<lambda>e. deref (generator e)) (m_data t) ! j = deref (generator (m_data t ! j))"
      by simp
    moreover from that
    have "map (\<lambda>e. deref (generator e)) (m_data s) ! j = deref (generator (m_data s ! j))"
      by simp
    ultimately show ?thesis using assms by simp
  qed
  show ?thesis
  proof (cases "findEntry deref gen s")
    case None
    then have "\<forall>j < length (m_data s). deref (generator (m_data s ! j)) \<noteq> deref gen"
      by (simp add: findEntry_None_iff)
    then have "\<forall>e \<in> set (m_data t). deref (generator e) \<noteq> deref gen"
      using nth len by (metis in_set_conv_nth)
    then have "findEntry deref gen t = None" by (simp add: findEntry_None_iff)
    with None show ?thesis by simp
  next
    case (Some k)
    then have k: "k < length (m_data s)" "deref (generator (m_data s ! k)) = deref gen"
      "\<forall>j < k. deref (generator (m_data s ! j)) \<noteq> deref gen"
      by (simp_all add: findEntry_Some_iff)
    then have "findEntry deref gen t = Some k"
      using nth len by (simp add: findEntry_Some_iff)
    with Some show ?thesis by simp
  qed
qed

lemma unique_index:
  assumes "unique_generators deref xs" "i < length xs" "j < length xs"
    and "deref (generator (xs ! i)) = deref (generator (xs ! j))"
  shows "i = j"
proof -
  from assms(1) have "distinct (map (\<lambda>e. deref (generator e)) xs)"
    by (simp add: unique_generators_def)
  moreover from assms(2-4)
  have "map (\<lambda>e. deref (generator e)) xs ! i = map (\<lambda>e. deref (generator e)) xs ! j"
    by simp
  ultimately show ?thesis
    using assms(2,3) nth_eq_iff_index_eq [of "map (\<lambda>e. deref (generator e)) xs" i j]
    by simp
qed

lemma unique_findEntry:
  assumes "unique_generators deref (m_data s)" "e \<in> set (m_data s)"
    and "deref (generator e) = deref gen"
  shows "\<exists>i. findEntry deref gen s = Some i \<and> m_data s ! i = e"
proof -
  from assms(2) obtain k where k: "k < length (m_data s)" "m_data s ! k = e"
    by (auto simp: in_set_conv_nth)
  from assms(2,3) have "findEntry deref gen s \<noteq> None"
    by (auto simp: findEntry_None_iff)
  then obtain i where i: "findEntry deref gen s = Some i" by auto
  then have "i < length (m_data s)" "deref (generator (m_data s ! i)) = deref gen"
    by (simp_all add: findEntry_Some_iff)
  with k assms(1,3) have "i = k" by (intro unique_index [of deref "m_data s"]) simp_all
  with i k show ?thesis by simp
qed

section \<open>The data of an entry across one operation\<close>

lemma getData_requestData:
  "fst (getData deref gen (snd (requestData deref g' r s))) = fst (getData deref gen s)"
proof (cases "findEntry deref g' s")
  case None
  have m: "m_data (snd (requestData deref g' r s))
             = m_data s @ [\<lparr>generator = g', referencingObjects = [r], data = None\<rparr>]"
    using None by (rule m_data_requestData_new)
  show ?thesis
  proof (cases "findEntry deref gen s")
    case (Some j)
    then have j: "j < length (m_data s)" "deref (generator (m_data s ! j)) = deref gen"
      "\<forall>k < j. deref (generator (m_data s ! k)) \<noteq> deref gen"
      by (simp_all add: findEntry_Some_iff)
    then have "findEntry deref gen (snd (requestData deref g' r s)) = Some j"
      by (simp add: findEntry_Some_iff m nth_append)
    with Some j(1) show ?thesis by (simp add: fst_getData m nth_append)
  next
    case no: None
    then have all: "\<forall>k < length (m_data s). deref (generator (m_data s ! k)) \<noteq> deref gen"
      by (simp add: findEntry_None_iff)
    show ?thesis
    proof (cases "deref g' = deref gen")
      case True
      with all have "findEntry deref gen (snd (requestData deref g' r s)) = Some (length (m_data s))"
        by (simp add: findEntry_Some_iff m nth_append)
      with no show ?thesis by (simp add: fst_getData m)
    next
      case False
      with no have "findEntry deref gen (snd (requestData deref g' r s)) = None"
        by (simp add: findEntry_None_iff m)
      with no show ?thesis by (simp add: fst_getData)
    qed
  qed
next
  case (Some i)
  then have i: "i < length (m_data s)" by (simp add: findEntry_Some_iff)
  let ?e = "(m_data s ! i)\<lparr>referencingObjects := referencingObjects (m_data s ! i) @ [r]\<rparr>"
  have m: "m_data (snd (requestData deref g' r s))
           = (if r \<in> set (referencingObjects (m_data s ! i)) then m_data s
              else (m_data s)[i := ?e])"
    using Some by (rule m_data_requestData_old)
  have f: "findEntry deref gen (snd (requestData deref g' r s)) = findEntry deref gen s"
    using i by (intro findEntry_same_keys) (simp add: m keys_list_update)
  have d: "data (m_data (snd (requestData deref g' r s)) ! j) = data (m_data s ! j)"
    if "j < length (m_data s)" for j
    using that i by (cases "j = i") (simp_all add: m)
  show ?thesis
  proof (cases "findEntry deref gen s")
    case None
    with f show ?thesis by (simp add: fst_getData)
  next
    case (Some j)
    then have "j < length (m_data s)" by (simp add: findEntry_Some_iff)
    from d [OF this] f Some show ?thesis by (simp add: fst_getData)
  qed
qed

lemma getData_assignData:
  "fst (getData deref gen (assignData deref g' dat s))
     = (if deref g' = deref gen \<and> fst (contains deref gen s) then dat
        else fst (getData deref gen s))"
proof (cases "findEntry deref g' s")
  case None
  then have m: "m_data (assignData deref g' dat s) = m_data s"
    by (simp add: m_data_assignData)
  then have "findEntry deref gen (assignData deref g' dat s) = findEntry deref gen s"
    by (intro findEntry_same_keys) simp
  with m have same: "fst (getData deref gen (assignData deref g' dat s)) = fst (getData deref gen s)"
    by (simp add: fst_getData split: option.splits)
  show ?thesis
  proof (cases "deref g' = deref gen")
    case True
    with None have "findEntry deref gen s = None"
      using findEntry_value [of deref g' gen s] by simp
    with same show ?thesis by (simp add: contains_def)
  next
    case False
    with same show ?thesis by simp
  qed
next
  case (Some i)
  then have i: "i < length (m_data s)" "deref (generator (m_data s ! i)) = deref g'"
    by (simp_all add: findEntry_Some_iff)
  have m: "m_data (assignData deref g' dat s) = (m_data s)[i := (m_data s ! i)\<lparr>data := dat\<rparr>]"
    using Some by (simp add: m_data_assignData)
  have f: "findEntry deref gen (assignData deref g' dat s) = findEntry deref gen s"
    using i by (intro findEntry_same_keys) (simp add: m keys_list_update)
  show ?thesis
  proof (cases "deref g' = deref gen")
    case True
    with Some have g: "findEntry deref gen s = Some i"
      using findEntry_value [of deref g' gen s] by simp
    with f i True show ?thesis by (simp add: fst_getData m contains_def)
  next
    case False
    show ?thesis
    proof (cases "findEntry deref gen s")
      case None
      with f False show ?thesis by (simp add: fst_getData)
    next
      case (Some j)
      then have "deref (generator (m_data s ! j)) = deref gen" "j < length (m_data s)"
        by (simp_all add: findEntry_Some_iff)
      with i False have "j \<noteq> i" by auto
      with f Some False show ?thesis by (simp add: fst_getData m)
    qed
  qed
qed

lemma find_Some_in: "find P xs = Some e \<Longrightarrow> e \<in> set xs \<and> P e"
  by (induction xs) (auto split: if_splits)

lemma find_releaseData_entries:
  "unique_generators deref xs \<Longrightarrow>
     find (\<lambda>e. deref (generator e) = deref gen) (releaseData_entries deref g' r xs) = Some e' \<Longrightarrow>
     \<exists>e. find (\<lambda>e. deref (generator e) = deref gen) xs = Some e \<and> data e' = data e"
proof (induction xs)
  case Nil
  then show ?case by simp
next
  case (Cons x xs)
  from Cons.prems(1) have u: "unique_generators deref xs"
    and nx: "\<forall>e \<in> set xs. deref (generator e) \<noteq> deref (generator x)"
    by (auto simp: unique_generators_def image_iff)
  show ?case
  proof (cases "deref (generator x) = deref g'")
    case False
    with Cons.prems(2) Cons.IH [OF u] show ?thesis
      by (auto split: if_splits)
  next
    case True
    with nx have "releaseData_entries deref g' r xs = xs"
      by (intro releaseData_entries_unknown) simp
    with True Cons.prems(2) nx show ?thesis
      by (auto split: if_splits dest: find_Some_in)
  qed
qed

lemma getData_find:
  "fst (getData deref gen s)
     = (case find (\<lambda>e. deref (generator e) = deref gen) (m_data s) of
          None \<Rightarrow> None | Some e \<Rightarrow> data e)"
proof (cases "findEntry deref gen s")
  case None
  then have "find (\<lambda>e. deref (generator e) = deref gen) (m_data s) = None"
    by (simp add: findEntry_None_iff find_None_iff)
  with None show ?thesis by (simp add: fst_getData)
next
  case (Some i)
  then have "find (\<lambda>e. deref (generator e) = deref gen) (m_data s) = Some (m_data s ! i)"
    by (auto simp: findEntry_Some_iff find_Some_iff)
  with Some show ?thesis by (simp add: fst_getData)
qed

lemma getData_releaseData:
  assumes "unique_generators deref (m_data s)"
    and "fst (contains deref gen (releaseData deref g' r s))"
  shows "fst (getData deref gen (releaseData deref g' r s)) = fst (getData deref gen s)"
proof -
  let ?P = "\<lambda>e. deref (generator e) = deref gen"
  from assms(2) have "find ?P (m_data (releaseData deref g' r s)) \<noteq> None"
    by (auto simp: fst_contains find_None_iff)
  then obtain e' where "find ?P (m_data (releaseData deref g' r s)) = Some e'"
    by auto
  moreover from this obtain e where "find ?P (m_data s) = Some e" "data e' = data e"
    using find_releaseData_entries [OF assms(1), of gen g' r e']
    by (auto simp: m_data_releaseData)
  ultimately show ?thesis by (simp add: getData_find)
qed

section \<open>The list of pending generators\<close>

lemma set_foldl_pendingGenerators_step:
  "set (foldl pendingGenerators_step acc xs)
     = set acc \<union> set (map generator (filter (\<lambda>e. data e = None) xs))"
  by (induction xs arbitrary: acc) (auto simp: pendingGenerators_step_def)

lemma distinct_foldl_pendingGenerators_step:
  "distinct acc \<Longrightarrow> distinct (foldl pendingGenerators_step acc xs)"
  by (induction xs arbitrary: acc) (auto simp: pendingGenerators_step_def)

lemma set_pendingGenerators:
  "set (fst (pendingGenerators s)) = set (map generator (filter (\<lambda>e. data e = None) (m_data s)))"
  by (simp add: fst_pendingGenerators set_foldl_pendingGenerators_step)

lemma pending_value_iff:
  assumes "unique_generators deref (m_data s)"
  shows "deref gen \<in> deref ` set (fst (pendingGenerators s))
           \<longleftrightarrow> fst (contains deref gen s) \<and> fst (getData deref gen s) = None"
proof
  assume "deref gen \<in> deref ` set (fst (pendingGenerators s))"
  then obtain e where e: "e \<in> set (m_data s)" "data e = None" "deref (generator e) = deref gen"
    by (auto simp: set_pendingGenerators)
  from unique_findEntry [OF assms e(1,3)] e(2)
  have "fst (getData deref gen s) = None" by (auto simp: fst_getData)
  with e show "fst (contains deref gen s) \<and> fst (getData deref gen s) = None"
    by (auto simp: fst_contains)
next
  assume a: "fst (contains deref gen s) \<and> fst (getData deref gen s) = None"
  then obtain i where i: "findEntry deref gen s = Some i"
    by (auto simp: contains_def)
  then have "i < length (m_data s)" "deref (generator (m_data s ! i)) = deref gen"
    by (simp_all add: findEntry_Some_iff)
  moreover from a i have "data (m_data s ! i) = None" by (simp add: fst_getData)
  ultimately have "generator (m_data s ! i) \<in> set (fst (pendingGenerators s))"
    by (auto simp: set_pendingGenerators)
  with \<open>deref (generator (m_data s ! i)) = deref gen\<close>
  show "deref gen \<in> deref ` set (fst (pendingGenerators s))"
    by (metis image_eqI)
qed

lemma distinct_values_pendingGenerators:
  assumes "unique_generators deref (m_data s)"
  shows "distinct (map deref (fst (pendingGenerators s)))"
proof -
  from assms have "distinct (map deref (map generator (m_data s)))"
    by (simp add: unique_generators_def comp_def)
  then have "inj_on deref (set (map generator (m_data s)))"
    using distinct_map [of deref "map generator (m_data s)"] by blast
  moreover have "set (fst (pendingGenerators s)) \<subseteq> set (map generator (m_data s))"
    by (auto simp: set_pendingGenerators)
  ultimately have "inj_on deref (set (fst (pendingGenerators s)))"
    by (rule inj_on_subset)
  moreover have "distinct (fst (pendingGenerators s))"
    by (simp add: fst_pendingGenerators distinct_foldl_pendingGenerators_step)
  ultimately show ?thesis by (simp add: distinct_map)
qed

section \<open>The data of an entry along a run\<close>

lemma getData_same_entries:
  "m_data t = m_data s \<Longrightarrow> fst (getData deref gen t) = fst (getData deref gen s)"
  by (simp add: fst_getData findEntry_def split: option.splits)

lemma findEntry_assignData:
  "findEntry deref gen (assignData deref g' dat s) = findEntry deref gen s"
proof (cases "findEntry deref g' s")
  case None
  then show ?thesis by (intro findEntry_same_keys) (simp add: m_data_assignData)
next
  case (Some i)
  then have "i < length (m_data s)" by (simp add: findEntry_Some_iff)
  with Some show ?thesis
    by (intro findEntry_same_keys) (simp add: m_data_assignData keys_list_update)
qed

lemma getData_perform:
  assumes "unique_generators deref (m_data s)"
    and "fst (contains deref gen (perform deref s c))"
  shows "fst (getData deref gen (perform deref s c))
           = (case c of
                AssignData g' dat \<Rightarrow>
                  if deref g' = deref gen then dat else fst (getData deref gen s)
              | _ \<Rightarrow> fst (getData deref gen s))"
proof (cases c)
  case (RequestData g' r)
  then show ?thesis by (simp add: getData_requestData)
next
  case (ReleaseData g' r)
  with assms show ?thesis by (simp add: getData_releaseData)
next
  case (GetData g')
  then show ?thesis
    using getData_same_entries [of "snd (getData deref g' s)" s deref gen] by simp
next
  case PendingGenerators
  then show ?thesis
    using getData_same_entries [of "snd (pendingGenerators s)" s deref gen] by simp
next
  case (AssignData g' dat)
  have "fst (contains deref gen (assignData deref g' dat s)) = fst (contains deref gen s)"
    by (simp add: contains_def findEntry_assignData)
  with assms(2) AssignData have "fst (contains deref gen s)" by simp
  with AssignData show ?thesis by (simp add: getData_assignData)
next
  case (Contains g')
  then show ?thesis by (simp add: contains_def)
qed

lemma unique_foldl_perform:
  "unique_generators deref (m_data s) \<Longrightarrow>
     unique_generators deref (m_data (foldl (perform deref) s calls))"
  by (induction calls arbitrary: s) (simp_all add: unique_perform)

lemma data_stays_along_run:
  assumes "unique_generators deref (m_data s)"
    and "\<forall>c \<in> set calls. \<not> assigns_empty c"
    and "\<forall>n \<le> length calls. fst (contains deref gen (foldl (perform deref) s (take n calls)))"
    and "fst (getData deref gen s) \<noteq> None"
  shows "fst (getData deref gen (foldl (perform deref) s calls)) \<noteq> None"
  using assms(2,3)
proof (induction calls rule: rev_induct)
  case Nil
  with assms(4) show ?case by simp
next
  case (snoc c calls)
  let ?t = "foldl (perform deref) s calls"
  have "fst (contains deref gen (foldl (perform deref) s (take n calls)))"
    if "n \<le> length calls" for n
  proof -
    from that have "n \<le> length (calls @ [c])" by simp
    with snoc.prems(2) have "fst (contains deref gen (foldl (perform deref) s (take n (calls @ [c]))))"
      by blast
    with that show ?thesis by simp
  qed
  with snoc have before: "fst (getData deref gen ?t) \<noteq> None" by simp
  have u: "unique_generators deref (m_data ?t)"
    using assms(1) by (rule unique_foldl_perform)
  from snoc.prems(2) have "fst (contains deref gen (foldl (perform deref) s (take (length (calls @ [c])) (calls @ [c]))))"
    by blast
  then have alive: "fst (contains deref gen (perform deref ?t c))" by simp
  from snoc.prems(1) have ne: "\<not> assigns_empty c" by simp
  from getData_perform [OF u alive] before ne
  have "fst (getData deref gen (perform deref ?t c)) \<noteq> None"
    by (cases c) (auto split: if_splits)
  then show ?case by simp
qed

section \<open>Who references a generator, across one operation\<close>

lemma referencers_iff:
  "x \<in> referencers deref gen s
     \<longleftrightarrow> (\<exists>e \<in> set (m_data s). deref (generator e) = deref gen \<and> x \<in> set (referencingObjects e))"
  by (auto simp: referencers_def)

lemma contains_iff_referencers:
  assumes "all_referenced (m_data s)"
  shows "fst (contains deref gen s) \<longleftrightarrow> referencers deref gen s \<noteq> {}"
proof
  assume "fst (contains deref gen s)"
  then obtain e where e: "e \<in> set (m_data s)" "deref (generator e) = deref gen"
    by (auto simp: fst_contains)
  with assms have "referencingObjects e \<noteq> []"
    by (auto simp: all_referenced_def list_all_iff)
  then obtain x where "x \<in> set (referencingObjects e)"
    by (cases "referencingObjects e") auto
  with e have "x \<in> referencers deref gen s" by (auto simp: referencers_iff)
  then show "referencers deref gen s \<noteq> {}" by blast
next
  assume "referencers deref gen s \<noteq> {}"
  then obtain x where "x \<in> referencers deref gen s" by blast
  then show "fst (contains deref gen s)"
    by (auto simp: referencers_iff fst_contains)
qed

lemma update_found_as_map:
  assumes u: "unique_generators deref (m_data s)"
    and f: "findEntry deref gen s = Some i"
  shows "(m_data s)[i := h (m_data s ! i)]
           = map (\<lambda>e. if deref (generator e) = deref gen then h e else e) (m_data s)"
proof (rule nth_equalityI)
  show "length ((m_data s)[i := h (m_data s ! i)])
          = length (map (\<lambda>e. if deref (generator e) = deref gen then h e else e) (m_data s))"
    by simp
next
  fix j assume "j < length ((m_data s)[i := h (m_data s ! i)])"
  then have j: "j < length (m_data s)" by simp
  from f have i: "i < length (m_data s)" "deref (generator (m_data s ! i)) = deref gen"
    by (simp_all add: findEntry_Some_iff)
  show "(m_data s)[i := h (m_data s ! i)] ! j
          = map (\<lambda>e. if deref (generator e) = deref gen then h e else e) (m_data s) ! j"
  proof (cases "j = i")
    case True
    with i show ?thesis by simp
  next
    case False
    have "deref (generator (m_data s ! j)) \<noteq> deref gen"
    proof
      assume "deref (generator (m_data s ! j)) = deref gen"
      with i(2) have "deref (generator (m_data s ! j)) = deref (generator (m_data s ! i))"
        by simp
      from unique_index [OF u j i(1) this] False show False by simp
    qed
    with False j show ?thesis by simp
  qed
qed

lemma m_data_requestData_exact:
  assumes "unique_generators deref (m_data s)"
  shows "m_data (snd (requestData deref gen r s))
           = (if fst (requestData deref gen r s)
              then m_data s @ [\<lparr>generator = gen, referencingObjects = [r], data = None\<rparr>]
              else map (\<lambda>e. if deref (generator e) = deref gen \<and> r \<notin> set (referencingObjects e)
                             then e\<lparr>referencingObjects := referencingObjects e @ [r]\<rparr> else e)
                     (m_data s))"
proof (cases "findEntry deref gen s")
  case None
  then show ?thesis by (simp add: fst_requestData m_data_requestData_new)
next
  case (Some i)
  let ?h = "\<lambda>e. if r \<notin> set (referencingObjects e)
                 then e\<lparr>referencingObjects := referencingObjects e @ [r]\<rparr> else e"
  from Some have i: "i < length (m_data s)" by (simp add: findEntry_Some_iff)
  have "m_data (snd (requestData deref gen r s)) = (m_data s)[i := ?h (m_data s ! i)]"
    using Some i by (simp add: m_data_requestData_old)
  also have "\<dots> = map (\<lambda>e. if deref (generator e) = deref gen then ?h e else e) (m_data s)"
    using assms Some by (rule update_found_as_map)
  also have "\<dots> = map (\<lambda>e. if deref (generator e) = deref gen \<and> r \<notin> set (referencingObjects e)
                             then e\<lparr>referencingObjects := referencingObjects e @ [r]\<rparr> else e)
                     (m_data s)"
    by (intro map_cong) auto
  finally show ?thesis using Some by (simp add: fst_requestData)
qed

lemma m_data_assignData_exact:
  assumes "unique_generators deref (m_data s)"
  shows "m_data (assignData deref gen dat s)
           = map (\<lambda>e. if deref (generator e) = deref gen then e\<lparr>data := dat\<rparr> else e) (m_data s)"
proof (cases "findEntry deref gen s")
  case None
  then have "\<forall>e \<in> set (m_data s). deref (generator e) \<noteq> deref gen"
    by (simp add: findEntry_None_iff)
  then have "map (\<lambda>e. if deref (generator e) = deref gen then e\<lparr>data := dat\<rparr> else e) (m_data s)
               = m_data s"
    by (intro map_idI) auto
  with None show ?thesis by (simp add: m_data_assignData)
next
  case (Some i)
  with update_found_as_map [OF assms Some, of "\<lambda>e. e\<lparr>data := dat\<rparr>"]
  show ?thesis by (simp add: m_data_assignData)
qed

lemma releaseData_entries_exact:
  "unique_generators deref xs \<Longrightarrow>
     releaseData_entries deref gen r xs
       = filter (\<lambda>e. \<not> (deref (generator e) = deref gen \<and> referencingObjects e = []))
           (map (\<lambda>e. if deref (generator e) = deref gen
                      then e\<lparr>referencingObjects := removeAll r (referencingObjects e)\<rparr> else e)
              xs)"
proof (induction xs)
  case Nil
  then show ?case by simp
next
  case (Cons x xs)
  from Cons.prems have u: "unique_generators deref xs"
    and nx: "\<forall>e \<in> set xs. deref (generator e) \<noteq> deref (generator x)"
    by (auto simp: unique_generators_def image_iff)
  show ?case
  proof (cases "deref (generator x) = deref gen")
    case False
    with Cons.IH [OF u] show ?thesis by simp
  next
    case True
    with nx have no: "\<forall>e \<in> set xs. deref (generator e) \<noteq> deref gen" by simp
    then have m: "map (\<lambda>e. if deref (generator e) = deref gen
                      then e\<lparr>referencingObjects := removeAll r (referencingObjects e)\<rparr> else e) xs
                  = xs"
      by (intro map_idI) auto
    from no have f: "filter (\<lambda>e. \<not> (deref (generator e) = deref gen \<and> referencingObjects e = [])) xs
                  = xs"
      by (intro filter_True) auto
    from no have same: "releaseData_entries deref gen r xs = xs"
      by (rule releaseData_entries_unknown)
    from True m f same show ?thesis by simp
  qed
qed

lemma bex_map_entries:
  assumes "\<And>e. generator (F e) = generator e"
  shows "(\<exists>e \<in> set (map F xs). deref (generator e) = v \<and> Q e)
           \<longleftrightarrow> (\<exists>e \<in> set xs. deref (generator e) = v \<and> Q (F e))"
  using assms by (induction xs) auto

lemma referencers_requestData:
  assumes "unique_generators deref (m_data s)"
  shows "referencers deref g' (snd (requestData deref gen r s))
           = (if deref gen = deref g' then insert r (referencers deref g' s)
              else referencers deref g' s)"
proof (cases "fst (requestData deref gen r s)")
  case True
  then have "m_data (snd (requestData deref gen r s))
               = m_data s @ [\<lparr>generator = gen, referencingObjects = [r], data = None\<rparr>]"
    using m_data_requestData_exact [OF assms, of gen r] by simp
  then show ?thesis by (auto simp: referencers_def)
next
  case False
  then obtain e0 where e0: "e0 \<in> set (m_data s)" "deref (generator e0) = deref gen"
    by (auto simp: fst_requestData findEntry_None_iff)
  let ?F = "\<lambda>e. if deref (generator e) = deref gen \<and> r \<notin> set (referencingObjects e)
                 then e\<lparr>referencingObjects := referencingObjects e @ [r]\<rparr> else e"
  from False have m: "m_data (snd (requestData deref gen r s)) = map ?F (m_data s)"
    using m_data_requestData_exact [OF assms, of gen r] by simp
  have gen_F: "generator (?F e) = generator e" for e by simp
  have after: "x \<in> referencers deref g' (snd (requestData deref gen r s))
            \<longleftrightarrow> (\<exists>e \<in> set (m_data s). deref (generator e) = deref g'
                   \<and> x \<in> set (referencingObjects (?F e)))" for x
    unfolding referencers_iff m
    by (rule bex_map_entries [where Q = "\<lambda>e. x \<in> set (referencingObjects e)"]) simp
  show ?thesis
  proof (cases "deref gen = deref g'")
    case True
    have "x \<in> referencers deref g' (snd (requestData deref gen r s))
            \<longleftrightarrow> x \<in> insert r (referencers deref g' s)" for x
    proof -
      have "(\<exists>e \<in> set (m_data s). deref (generator e) = deref g'
                   \<and> x \<in> set (referencingObjects (?F e)))
             \<longleftrightarrow> (\<exists>e \<in> set (m_data s). deref (generator e) = deref g'
                   \<and> (x = r \<or> x \<in> set (referencingObjects e)))"
        using True by (intro bex_cong refl conj_cong) auto
      also have "\<dots> \<longleftrightarrow> x \<in> insert r (referencers deref g' s)"
        using e0 True by (auto simp: referencers_iff)
      finally show ?thesis using after by simp
    qed
    with True show ?thesis by auto
  next
    case False
    have "x \<in> referencers deref g' (snd (requestData deref gen r s))
            \<longleftrightarrow> x \<in> referencers deref g' s" for x
    proof -
      have "(\<exists>e \<in> set (m_data s). deref (generator e) = deref g'
                   \<and> x \<in> set (referencingObjects (?F e)))
             \<longleftrightarrow> (\<exists>e \<in> set (m_data s). deref (generator e) = deref g'
                   \<and> x \<in> set (referencingObjects e))"
        using False by (intro bex_cong refl conj_cong) auto
      then show ?thesis using after by (simp add: referencers_iff)
    qed
    with False show ?thesis by auto
  qed
qed

lemma referencers_releaseData:
  assumes "unique_generators deref (m_data s)"
  shows "referencers deref g' (releaseData deref gen r s)
           = (if deref gen = deref g' then referencers deref g' s - {r}
              else referencers deref g' s)"
proof -
  let ?F = "\<lambda>e. if deref (generator e) = deref gen
                 then e\<lparr>referencingObjects := removeAll r (referencingObjects e)\<rparr> else e"
  let ?K = "\<lambda>e. \<not> (deref (generator e) = deref gen \<and> referencingObjects e = [])"
  have m: "m_data (releaseData deref gen r s) = filter ?K (map ?F (m_data s))"
    using releaseData_entries_exact [OF assms, of gen r] by (simp add: m_data_releaseData)
  have after: "x \<in> referencers deref g' (releaseData deref gen r s)
            \<longleftrightarrow> (\<exists>e \<in> set (m_data s). deref (generator e) = deref g'
                   \<and> (x \<in> set (referencingObjects (?F e)) \<and> ?K (?F e)))" for x
  proof -
    have "x \<in> referencers deref g' (releaseData deref gen r s)
            \<longleftrightarrow> (\<exists>e \<in> set (map ?F (m_data s)). deref (generator e) = deref g'
                   \<and> (x \<in> set (referencingObjects e) \<and> ?K e))"
      unfolding referencers_iff m by auto
    also have "\<dots> \<longleftrightarrow> (\<exists>e \<in> set (m_data s). deref (generator e) = deref g'
                   \<and> (x \<in> set (referencingObjects (?F e)) \<and> ?K (?F e)))"
      by (rule bex_map_entries [where Q = "\<lambda>e. x \<in> set (referencingObjects e) \<and> ?K e"]) simp
    finally show ?thesis .
  qed
  show ?thesis
  proof (cases "deref gen = deref g'")
    case True
    have "x \<in> referencers deref g' (releaseData deref gen r s)
            \<longleftrightarrow> x \<in> referencers deref g' s - {r}" for x
    proof -
      have "(\<exists>e \<in> set (m_data s). deref (generator e) = deref g'
                   \<and> (x \<in> set (referencingObjects (?F e)) \<and> ?K (?F e)))
             \<longleftrightarrow> (\<exists>e \<in> set (m_data s). deref (generator e) = deref g'
                   \<and> (x \<in> set (referencingObjects e) \<and> x \<noteq> r))"
        using True by (intro bex_cong [OF refl]) (auto simp: removeAll_empty_iff)
      then show ?thesis using after by (auto simp: referencers_iff)
    qed
    with True show ?thesis by auto
  next
    case False
    have "x \<in> referencers deref g' (releaseData deref gen r s)
            \<longleftrightarrow> x \<in> referencers deref g' s" for x
    proof -
      have "(\<exists>e \<in> set (m_data s). deref (generator e) = deref g'
                   \<and> (x \<in> set (referencingObjects (?F e)) \<and> ?K (?F e)))
             \<longleftrightarrow> (\<exists>e \<in> set (m_data s). deref (generator e) = deref g'
                   \<and> x \<in> set (referencingObjects e))"
        using False by (intro bex_cong refl conj_cong) auto
      then show ?thesis using after by (simp add: referencers_iff)
    qed
    with False show ?thesis by auto
  qed
qed

lemma referencers_assignData:
  assumes "unique_generators deref (m_data s)"
  shows "referencers deref g' (assignData deref gen dat s) = referencers deref g' s"
proof -
  let ?F = "\<lambda>e. if deref (generator e) = deref gen then e\<lparr>data := dat\<rparr> else e"
  have "x \<in> referencers deref g' (assignData deref gen dat s) \<longleftrightarrow> x \<in> referencers deref g' s"
    for x
  proof -
    have "x \<in> referencers deref g' (assignData deref gen dat s)
            \<longleftrightarrow> (\<exists>e \<in> set (m_data s). deref (generator e) = deref g'
                   \<and> x \<in> set (referencingObjects (?F e)))"
      unfolding referencers_iff m_data_assignData_exact [OF assms]
      by (rule bex_map_entries [where Q = "\<lambda>e. x \<in> set (referencingObjects e)"]) simp
    also have "\<dots> \<longleftrightarrow> (\<exists>e \<in> set (m_data s). deref (generator e) = deref g'
                   \<and> x \<in> set (referencingObjects e))"
      by (intro bex_cong refl conj_cong) auto
    finally show ?thesis by (simp add: referencers_iff)
  qed
  then show ?thesis by blast
qed

lemma referencers_perform:
  assumes "unique_generators deref (m_data s)"
  shows "referencers deref g' (perform deref s c)
           = (case c of
                RequestData gen r \<Rightarrow>
                  if deref gen = deref g' then insert r (referencers deref g' s)
                  else referencers deref g' s
              | ReleaseData gen r \<Rightarrow>
                  if deref gen = deref g' then referencers deref g' s - {r}
                  else referencers deref g' s
              | _ \<Rightarrow> referencers deref g' s)"
proof (cases c)
  case (RequestData gen r)
  with assms show ?thesis by (simp add: referencers_requestData)
next
  case (ReleaseData gen r)
  with assms show ?thesis by (simp add: referencers_releaseData)
next
  case (GetData gen)
  then show ?thesis by (simp add: referencers_def)
next
  case PendingGenerators
  then show ?thesis by (simp add: referencers_def)
next
  case (AssignData gen dat)
  with assms show ?thesis by (simp add: referencers_assignData)
next
  case (Contains gen)
  then show ?thesis by (simp add: referencers_def contains_def)
qed

section \<open>Claims\<close>

text \<open>
  C1. \<open>requestData(g, r)\<close> returns \<open>true\<close> exactly when no entry whose generator is
  value-equal to \<open>g\<close> was in the cache before the call, and exactly then the call adds
  one entry to the vector; when an entry (pending or completed) is reused it returns
  \<open>false\<close> and the number of entries stays as it was.
\<close>

theorem requestData_true_iff_created:
  "(fst (requestData deref gen r s)
      \<longleftrightarrow> \<not> (\<exists>e \<in> set (m_data s). deref (generator e) = deref gen))
   \<and> length (m_data (snd (requestData deref gen r s)))
       = length (m_data s) + (if fst (requestData deref gen r s) then 1 else 0)"
proof (cases "findEntry deref gen s")
  case None
  then show ?thesis
    using findEntry_None_iff [of deref gen s]
    by (simp add: fst_requestData m_data_requestData_new)
next
  case (Some i)
  then show ?thesis
    using findEntry_None_iff [of deref gen s]
    by (simp add: fst_requestData m_data_requestData_old)
qed


text \<open>With an entry for handle \<open>10\<close> present, a request through the value-equal
  handle \<open>11\<close> returns \<open>false\<close> and a request for \<open>20\<close> returns \<open>true\<close>.\<close>

theorem requestData_true_iff_created_witness:
  "(\<exists>e \<in> set (m_data (run pointee [RequestData (10::nat) (1::nat)]
        :: example_manager)). pointee (generator e) = pointee 11)
   \<and> \<not> fst (requestData pointee 11 2
        (run pointee [RequestData (10::nat) (1::nat)]
           :: example_manager))
   \<and> fst (requestData pointee 20 2
        (run pointee [RequestData (10::nat) (1::nat)]
           :: example_manager))"
proof -
  let ?s = "run pointee [RequestData (10::nat) (1::nat)]
              :: example_manager"
  have m: "m_data ?s = [\<lparr>generator = 10, referencingObjects = [1], data = None\<rparr>]"
    by code_simp
  show ?thesis
    using requestData_true_iff_created [of pointee 11 2 ?s]
      requestData_true_iff_created [of pointee 20 2 ?s]
    unfolding m by (simp add: pointee_def)
qed

text \<open>
  C6. \<open>assignData(g, data)\<close> for a generator with no value-equal entry in the cache
  writes the warning and does nothing else: it returns normally, the vector of entries
  is exactly as before (the only trace of the call is \<open>lock, warning, unlock\<close>), and
  \<open>contains(g)\<close> is still false afterwards.
\<close>

theorem assignData_unknown_generator:
  assumes "\<forall>e \<in> set (m_data s). deref (generator e) \<noteq> deref gen"
  shows "assignData deref gen dat s
           = s\<lparr>effects := effects s @ [MutexLock,
                 QWarning ''[TextureDataManager] assignData() called with non-existent generator'',
                 MutexUnlock]\<rparr>
         \<and> m_data (assignData deref gen dat s) = m_data s
         \<and> \<not> fst (contains deref gen (assignData deref gen dat s))"
proof -
  from assms have n: "findEntry deref gen s = None" by (simp add: findEntry_None_iff)
  have m: "m_data (assignData deref gen dat s) = m_data s"
    by (simp add: m_data_assignData n)
  have e: "effects (assignData deref gen dat s) = effects s @ [MutexLock,
             QWarning ''[TextureDataManager] assignData() called with non-existent generator'',
             MutexUnlock]"
    by (simp add: effects_assignData n)
  have "\<not> fst (contains deref gen (assignData deref gen dat s))"
    using assms by (simp add: fst_contains m)
  with m e show ?thesis by simp
qed

text \<open>Assigning data for generator \<open>20\<close> when only \<open>10\<close> was requested.\<close>

theorem assignData_unknown_generator_witness:
  "map (\<lambda>e. pointee (generator e)) (m_data (run pointee [RequestData 10 1] :: example_manager))
       = [1]
   \<and> pointee 20 = 2
   \<and> \<not> fst (contains pointee 20
         (assignData pointee 20 (Some 7) (run pointee [RequestData 10 1] :: example_manager)))
   \<and> m_data (assignData pointee 20 (Some 7) (run pointee [RequestData 10 1] :: example_manager))
       = [\<lparr>generator = 10, referencingObjects = [1], data = None\<rparr>]
   \<and> effects (assignData pointee 20 (Some 7) (run pointee [RequestData 10 1] :: example_manager))
       = [MutexLock, MutexUnlock, MutexLock,
          QWarning ''[TextureDataManager] assignData() called with non-existent generator'',
          MutexUnlock]"
proof -
  let ?s = "run pointee [RequestData 10 1] :: example_manager"
  have s: "?s = \<lparr>m_data = [\<lparr>generator = 10, referencingObjects = [1], data = None\<rparr>],
                 effects = [MutexLock, MutexUnlock]\<rparr>"
    by code_simp
  have c: "\<forall>e \<in> set (m_data ?s). pointee (generator e) \<noteq> pointee 20"
    unfolding s by (simp add: pointee_def)
  note a = assignData_unknown_generator [OF c, of "Some 7"]
  from a have "effects (assignData pointee 20 (Some 7) ?s) = effects ?s @ [MutexLock,
      QWarning ''[TextureDataManager] assignData() called with non-existent generator'',
      MutexUnlock]"
    by simp
  moreover from a have "m_data (assignData pointee 20 (Some 7) ?s) = m_data ?s"
    by blast
  moreover from a have "\<not> fst (contains pointee 20 (assignData pointee 20 (Some 7) ?s))"
    by blast
  ultimately show ?thesis using c unfolding s by (simp add: pointee_def)
qed

text \<open>
  C8. For a generator with no value-equal entry, \<open>releaseData\<close> changes nothing in the
  cache, \<open>getData\<close> returns the empty handle and \<open>contains\<close> returns false, and none of
  them writes a warning (their only effects are locking and unlocking). \<open>getData\<close> also
  returns the empty handle when the entry exists and its data is unassigned.
\<close>

theorem unknown_generator_is_no_error:
  "((\<forall>e \<in> set (m_data s). deref (generator e) \<noteq> deref gen) \<longrightarrow>
      releaseData deref gen r s = s\<lparr>effects := effects s @ [MutexLock, MutexUnlock]\<rparr>
      \<and> getData deref gen s = (None, s\<lparr>effects := effects s @ [MutexLock, MutexUnlock]\<rparr>)
      \<and> contains deref gen s = (False, s))
   \<and> ((\<forall>e \<in> set (m_data s). deref (generator e) = deref gen \<longrightarrow> data e = None) \<longrightarrow>
      getData deref gen s = (None, s\<lparr>effects := effects s @ [MutexLock, MutexUnlock]\<rparr>))"
proof -
  have g: "getData deref gen s = (None, s\<lparr>effects := effects s @ [MutexLock, MutexUnlock]\<rparr>)"
    if a: "\<forall>e \<in> set (m_data s). deref (generator e) = deref gen \<longrightarrow> data e = None"
  proof -
    have "fst (getData deref gen s) = None"
    proof (cases "findEntry deref gen s")
      case None
      then show ?thesis by (simp add: fst_getData)
    next
      case (Some i)
      then have "i < length (m_data s)" "deref (generator (m_data s ! i)) = deref gen"
        by (simp_all add: findEntry_Some_iff)
      with a have "data (m_data s ! i) = None" by (metis nth_mem)
      with Some show ?thesis by (simp add: fst_getData)
    qed
    moreover have "snd (getData deref gen s)
                     = s\<lparr>effects := effects s @ [MutexLock, MutexUnlock]\<rparr>"
      by (simp add: getData_def Let_def QMutexLocker_lock_def QMutexLocker_unlock_def)
    ultimately show ?thesis by (simp add: prod_eq_iff)
  qed
  have u: "releaseData deref gen r s = s\<lparr>effects := effects s @ [MutexLock, MutexUnlock]\<rparr>
      \<and> getData deref gen s = (None, s\<lparr>effects := effects s @ [MutexLock, MutexUnlock]\<rparr>)
      \<and> contains deref gen s = (False, s)"
    if no: "\<forall>e \<in> set (m_data s). deref (generator e) \<noteq> deref gen"
  proof -
    from no have c: "\<not> fst (contains deref gen s)"
      by (simp add: fst_contains)
    have "m_data (releaseData deref gen r s) = m_data s"
      by (simp add: m_data_releaseData releaseData_entries_unknown [OF no])
    then have "releaseData deref gen r s = s\<lparr>effects := effects s @ [MutexLock, MutexUnlock]\<rparr>"
      by (simp add: effects_releaseData)
    moreover from no have "getData deref gen s
        = (None, s\<lparr>effects := effects s @ [MutexLock, MutexUnlock]\<rparr>)"
      by (intro g) simp
    moreover from c have "contains deref gen s = (False, s)"
      by (simp add: contains_def)
    ultimately show ?thesis by simp
  qed
  from g u show ?thesis by blast
qed

text \<open>With only generator \<open>10\<close> requested and not yet generated: \<open>20\<close> is unknown, and
  \<open>11\<close> (value-equal to \<open>10\<close>) has an entry without data.\<close>

theorem unknown_generator_is_no_error_witness:
  "map (\<lambda>e. (pointee (generator e), data e))
       (m_data (run pointee [RequestData 10 1] :: example_manager)) = [(1, None)]
   \<and> pointee 20 = 2 \<and> pointee 11 = 1
   \<and> contains pointee 20 (run pointee [RequestData 10 1] :: example_manager)
       = (False, run pointee [RequestData 10 1])
   \<and> releaseData pointee 20 1 (run pointee [RequestData 10 1] :: example_manager)
       = \<lparr>m_data = [\<lparr>generator = 10, referencingObjects = [1], data = None\<rparr>],
          effects = [MutexLock, MutexUnlock, MutexLock, MutexUnlock]\<rparr>
   \<and> fst (getData pointee 20 (run pointee [RequestData 10 1] :: example_manager)) = None
   \<and> fst (getData pointee 11 (run pointee [RequestData 10 1] :: example_manager)) = None"
proof -
  let ?s = "run pointee [RequestData 10 1] :: example_manager"
  have s: "?s = \<lparr>m_data = [\<lparr>generator = 10, referencingObjects = [1], data = None\<rparr>],
                 effects = [MutexLock, MutexUnlock]\<rparr>"
    by code_simp
  have c: "\<forall>e \<in> set (m_data ?s). pointee (generator e) \<noteq> pointee 20"
    unfolding s by (simp add: pointee_def)
  have d: "\<forall>e \<in> set (m_data ?s). pointee (generator e) = pointee 11 \<longrightarrow> data e = None"
    unfolding s by simp
  show ?thesis
    using unknown_generator_is_no_error [where deref = pointee and gen = 20 and s = ?s and r = 1]
      unknown_generator_is_no_error [where deref = pointee and gen = 11 and s = ?s and r = 1] c d
    unfolding s by (simp add: pointee_def)
qed

text \<open>
  C9. Five of the six public operations bracket their work between locking and unlocking
  \<open>m_mutex\<close>, on every path; \<open>contains\<close> does not: it returns the state it was given,
  with no lock taken.
\<close>

theorem contains_takes_no_lock:
  "snd (contains deref gen s) = s
   \<and> effects (snd (requestData deref gen r s)) = effects s @ [MutexLock, MutexUnlock]
   \<and> effects (releaseData deref gen r s) = effects s @ [MutexLock, MutexUnlock]
   \<and> effects (snd (getData deref gen s)) = effects s @ [MutexLock, MutexUnlock]
   \<and> effects (snd (pendingGenerators s)) = effects s @ [MutexLock, MutexUnlock]
   \<and> effects (assignData deref gen dat s) =
       effects s @ MutexLock #
         (if fst (contains deref gen s) then []
          else [QWarning ''[TextureDataManager] assignData() called with non-existent generator''])
         @ [MutexUnlock]"
  by (simp add: effects_requestData effects_releaseData effects_getData
      effects_pendingGenerators effects_assignData contains_def split: option.splits)

text \<open>
  C10. The queries \<open>getData\<close>, \<open>contains\<close> and \<open>pendingGenerators\<close> leave the vector of
  entries, and with it every entry's generator, referencers and data, as it was.
\<close>

theorem queries_leave_entries_unchanged:
  "m_data (snd (getData deref gen s)) = m_data s
   \<and> m_data (snd (pendingGenerators s)) = m_data s
   \<and> m_data (snd (contains deref gen s)) = m_data s"
  by (simp add: contains_def)

text \<open>
  C2. After any sequence of public calls on a new manager no two entries hold
  value-equal generators. In a cache with that property, for handles \<open>g1\<close>, \<open>g2\<close> with
  \<open>*g1 == *g2\<close> (whether or not they are the same handle), \<open>requestData(g1, r1)\<close>
  followed by \<open>requestData(g2, r2)\<close> leaves exactly one entry for that generator value,
  the second call returns \<open>false\<close>, and \<open>contains(g1)\<close> and \<open>contains(g2)\<close> are true.
\<close>

theorem one_entry_per_generator_value:
  "unique_generators deref (m_data (run deref calls))
   \<and> (unique_generators deref (m_data s) \<and> deref g1 = deref g2 \<longrightarrow>
        length (filter (\<lambda>e. deref (generator e) = deref g1)
          (m_data (snd (requestData deref g2 r2 (snd (requestData deref g1 r1 s)))))) = 1
        \<and> \<not> fst (requestData deref g2 r2 (snd (requestData deref g1 r1 s)))
        \<and> fst (contains deref g1 (snd (requestData deref g2 r2 (snd (requestData deref g1 r1 s)))))
        \<and> fst (contains deref g2 (snd (requestData deref g2 r2 (snd (requestData deref g1 r1 s))))))"
proof -
  let ?s1 = "snd (requestData deref g1 r1 s)"
  let ?s2 = "snd (requestData deref g2 r2 ?s1)"
  have scenario: "length (filter (\<lambda>e. deref (generator e) = deref g1) (m_data ?s2)) = 1
        \<and> \<not> fst (requestData deref g2 r2 ?s1)
        \<and> fst (contains deref g1 ?s2) \<and> fst (contains deref g2 ?s2)"
    if u: "unique_generators deref (m_data s)" and eq: "deref g1 = deref g2"
  proof -
    from requestData_found [of deref g1 r1 s]
    have "findEntry deref g2 ?s1 \<noteq> None"
      by (auto simp: findEntry_value [of deref g1 g2 ?s1, OF eq, symmetric])
    then have second: "\<not> fst (requestData deref g2 r2 ?s1)"
      by (simp add: fst_requestData)
    from requestData_found [of deref g2 r2 ?s1]
    obtain i where "findEntry deref g2 ?s2 = Some i" by blast
    then have i: "i < length (m_data ?s2)" "deref (generator (m_data ?s2 ! i)) = deref g1"
      by (simp_all add: findEntry_Some_iff eq)
    then have ex: "\<exists>e \<in> set (m_data ?s2). deref (generator e) = deref g1"
      using nth_mem by blast
    have "unique_generators deref (m_data ?s2)"
      using u by (intro unique_requestData)
    then have "distinct (map (\<lambda>e. deref (generator e)) (m_data ?s2))"
      by (simp add: unique_generators_def)
    from filter_unique_key [OF this nth_mem [OF i(1)]] i(2)
    have "length (filter (\<lambda>e. deref (generator e) = deref g1) (m_data ?s2)) = 1" by simp
    with second ex show ?thesis by (simp add: fst_contains eq)
  qed
  from scenario unique_run [of deref calls] show ?thesis by blast
qed

text \<open>
  Handles \<open>10\<close> and \<open>11\<close> are distinct and point to equal values; the cache already
  holds generator \<open>20\<close>.
\<close>

theorem one_entry_per_generator_value_witness:
  "unique_generators pointee (m_data (run pointee [RequestData 20 5] :: example_manager))
   \<and> pointee 10 = pointee 11
   \<and> m_data (snd (requestData pointee 11 2 (snd (requestData pointee 10 1
         (run pointee [RequestData 20 5] :: example_manager)))))
       = [\<lparr>generator = 20, referencingObjects = [5], data = None\<rparr>,
          \<lparr>generator = 10, referencingObjects = [1, 2], data = None\<rparr>]
   \<and> length (filter (\<lambda>e. pointee (generator e) = pointee 10)
         (m_data (snd (requestData pointee 11 2 (snd (requestData pointee 10 1
           (run pointee [RequestData 20 5] :: example_manager))))))) = 1
   \<and> \<not> fst (requestData pointee 11 2 (snd (requestData pointee 10 1
         (run pointee [RequestData 20 5] :: example_manager))))"
proof -
  let ?s = "run pointee [RequestData 20 5] :: example_manager"
  have u: "unique_generators pointee (m_data ?s)" by code_simp
  have e: "pointee 10 = pointee 11" by code_simp
  have m: "m_data (snd (requestData pointee 11 2 (snd (requestData pointee 10 1 ?s))))
       = [\<lparr>generator = 20, referencingObjects = [5], data = None\<rparr>,
          \<lparr>generator = 10, referencingObjects = [1, 2], data = None\<rparr>]"
    by code_simp
  from one_entry_per_generator_value
         [where deref = pointee and s = ?s and ?g1.0 = 10 and ?g2.0 = 11 and ?r1.0 = 1
            and ?r2.0 = 2 and calls = "[]"] u e m
  show ?thesis by (auto simp: pointee_def)
qed

text \<open>
  C3. After any sequence of public calls every entry has at least one referencer, and an
  entry for a generator value exists exactly when somebody is recorded as referencing that
  value. Each public call changes the recorded referencers of every generator value as
  it should: \<open>requestData(g, r)\<close> adds \<open>r\<close> to those of \<open>g\<close>, \<open>releaseData(g, r)\<close> removes
  \<open>r\<close> from those of \<open>g\<close>, and nothing else changes, for \<open>g\<close> or for any other generator.
  \<open>requestData\<close> appends a new entry or adds \<open>r\<close> to the existing one and leaves every
  other entry as it was. \<open>releaseData(g, r)\<close> takes \<open>r\<close> off the entry of \<open>g\<close>, removes that
  entry exactly when no referencer is left, and leaves every other entry, the remaining
  referencers and the data of every surviving entry as they were; when the entry is
  gone, so is its data (\<open>getData\<close> is empty).
\<close>

theorem entry_exists_iff_referenced:
  "all_referenced (m_data (run deref calls))
   \<and> unique_generators deref (m_data (run deref calls))
   \<and> (all_referenced (m_data s) \<longrightarrow>
        (fst (contains deref g' s) \<longleftrightarrow> referencers deref g' s \<noteq> {}))
   \<and> (unique_generators deref (m_data s) \<longrightarrow>
        referencers deref g' (perform deref s c)
          = (case c of
               RequestData g r \<Rightarrow>
                 if deref g = deref g' then insert r (referencers deref g' s)
                 else referencers deref g' s
             | ReleaseData g r \<Rightarrow>
                 if deref g = deref g' then referencers deref g' s - {r}
                 else referencers deref g' s
             | _ \<Rightarrow> referencers deref g' s))
   \<and> (\<exists>e \<in> set (m_data (snd (requestData deref gen r s))).
         deref (generator e) = deref gen \<and> r \<in> set (referencingObjects e))
   \<and> (unique_generators deref (m_data s) \<longrightarrow>
        m_data (snd (requestData deref gen r s))
          = (if fst (requestData deref gen r s)
             then m_data s @ [\<lparr>generator = gen, referencingObjects = [r], data = None\<rparr>]
             else map (\<lambda>e. if deref (generator e) = deref gen \<and> r \<notin> set (referencingObjects e)
                            then e\<lparr>referencingObjects := referencingObjects e @ [r]\<rparr> else e)
                    (m_data s)))
   \<and> (unique_generators deref (m_data s) \<longrightarrow>
        m_data (releaseData deref gen r s)
          = filter (\<lambda>e. \<not> (deref (generator e) = deref gen \<and> referencingObjects e = []))
              (map (\<lambda>e. if deref (generator e) = deref gen
                         then e\<lparr>referencingObjects := removeAll r (referencingObjects e)\<rparr>
                         else e)
                 (m_data s)))
   \<and> (unique_generators deref (m_data s) \<longrightarrow>
        (fst (contains deref gen (releaseData deref gen r s))
           \<longleftrightarrow> (\<exists>e \<in> set (m_data s). deref (generator e) = deref gen
                  \<and> (\<exists>r' \<in> set (referencingObjects e). r' \<noteq> r))))
   \<and> (unique_generators deref (m_data s)
        \<and> fst (contains deref g' (releaseData deref gen r s)) \<longrightarrow>
        fst (getData deref g' (releaseData deref gen r s)) = fst (getData deref g' s))
   \<and> (\<not> fst (contains deref gen (releaseData deref gen r s)) \<longrightarrow>
        fst (getData deref gen (releaseData deref gen r s)) = None)"
proof -
  let ?s1 = "snd (requestData deref gen r s)"
  from requestData_found [of deref gen r s]
  obtain i where i: "findEntry deref gen ?s1 = Some i"
    "r \<in> set (referencingObjects (m_data ?s1 ! i))" by blast
  then have "i < length (m_data ?s1)" "deref (generator (m_data ?s1 ! i)) = deref gen"
    by (simp_all add: findEntry_Some_iff)
  with i(2) have touched: "\<exists>e \<in> set (m_data ?s1).
         deref (generator e) = deref gen \<and> r \<in> set (referencingObjects e)"
    using nth_mem by blast
  have released: "fst (contains deref gen (releaseData deref gen r s))
           \<longleftrightarrow> (\<exists>e \<in> set (m_data s). deref (generator e) = deref gen
                  \<and> (\<exists>r' \<in> set (referencingObjects e). r' \<noteq> r))"
    if "unique_generators deref (m_data s)"
    using survives_releaseData_entries [OF that, of gen r]
    by (simp add: fst_contains m_data_releaseData)
  have exact: "m_data (releaseData deref gen r s)
          = filter (\<lambda>e. \<not> (deref (generator e) = deref gen \<and> referencingObjects e = []))
              (map (\<lambda>e. if deref (generator e) = deref gen
                         then e\<lparr>referencingObjects := removeAll r (referencingObjects e)\<rparr>
                         else e)
                 (m_data s))"
    if "unique_generators deref (m_data s)"
    using releaseData_entries_exact [OF that, of gen r] by (simp add: m_data_releaseData)
  have gone: "fst (getData deref gen (releaseData deref gen r s)) = None"
    if "\<not> fst (contains deref gen (releaseData deref gen r s))"
    using that by (simp add: contains_def fst_getData)
  note referenced_run [of deref calls] unique_run [of deref calls]
    contains_iff_referencers [of s deref g'] referencers_perform [of deref s g' c]
    touched m_data_requestData_exact [of deref s gen r] exact released
    getData_releaseData [of deref s g' gen r] gone
  then show ?thesis by blast
qed

text \<open>
  Two generators are cached, \<open>20\<close> referenced by \<open>5\<close> and \<open>10\<close> referenced by \<open>1\<close> and \<open>2\<close>.
  Releasing \<open>1\<close> keeps both entries; releasing \<open>2\<close> (through the value-equal handle
  \<open>11\<close>) removes the entry of \<open>10\<close> and keeps that of \<open>20\<close> with its referencer.
\<close>

theorem entry_exists_iff_referenced_witness:
  "m_data (run pointee [RequestData 20 5, RequestData 10 1, RequestData 11 2] :: example_manager)
     = [\<lparr>generator = 20, referencingObjects = [5], data = None\<rparr>,
        \<lparr>generator = 10, referencingObjects = [1, 2], data = None\<rparr>]
   \<and> m_data (releaseData pointee 10 1
        (run pointee [RequestData 20 5, RequestData 10 1, RequestData 11 2] :: example_manager))
     = [\<lparr>generator = 20, referencingObjects = [5], data = None\<rparr>,
        \<lparr>generator = 10, referencingObjects = [2], data = None\<rparr>]
   \<and> fst (contains pointee 10 (releaseData pointee 10 1
        (run pointee [RequestData 20 5, RequestData 10 1, RequestData 11 2] :: example_manager)))
   \<and> referencers pointee 20 (releaseData pointee 10 1
        (run pointee [RequestData 20 5, RequestData 10 1, RequestData 11 2] :: example_manager))
     = {5}
   \<and> m_data (releaseData pointee 11 2
        (run pointee [RequestData 20 5, RequestData 10 1, RequestData 11 2, ReleaseData 10 1]
           :: example_manager))
     = [\<lparr>generator = 20, referencingObjects = [5], data = None\<rparr>]
   \<and> \<not> fst (contains pointee 11 (releaseData pointee 11 2
        (run pointee [RequestData 20 5, RequestData 10 1, RequestData 11 2, ReleaseData 10 1]
           :: example_manager)))
   \<and> fst (contains pointee 20 (releaseData pointee 11 2
        (run pointee [RequestData 20 5, RequestData 10 1, RequestData 11 2, ReleaseData 10 1]
           :: example_manager)))
   \<and> fst (getData pointee 11 (releaseData pointee 11 2
        (run pointee [RequestData 20 5, RequestData 10 1, RequestData 11 2, ReleaseData 10 1]
           :: example_manager))) = None"
proof -
  let ?s = "run pointee [RequestData 20 5, RequestData 10 1, RequestData 11 2] :: example_manager"
  let ?t = "run pointee [RequestData 20 5, RequestData 10 1, RequestData 11 2, ReleaseData 10 1]
              :: example_manager"
  let ?t' = "releaseData pointee 11 2 ?t"
  have s: "m_data ?s = [\<lparr>generator = 20, referencingObjects = [5], data = None\<rparr>,
                        \<lparr>generator = 10, referencingObjects = [1, 2], data = None\<rparr>]"
    by code_simp
  have t: "m_data ?t = [\<lparr>generator = 20, referencingObjects = [5], data = None\<rparr>,
                        \<lparr>generator = 10, referencingObjects = [2], data = None\<rparr>]"
    by code_simp
  have us: "unique_generators pointee (m_data ?s)" unfolding s by code_simp
  have ut: "unique_generators pointee (m_data ?t)" unfolding t by code_simp
  have rs: "referencers pointee 20 ?s = {5}"
    unfolding referencers_def s by (simp add: pointee_def)
  have at': "all_referenced (m_data ?t')" by code_simp
  have rt': "referencers pointee 20 ?t' \<noteq> {}"
    by code_simp
  note a = entry_exists_iff_referenced
             [where deref = pointee and gen = 10 and r = 1 and s = ?s and calls = "[]"
                and g' = 20 and c = "ReleaseData 10 1"]
  note b = entry_exists_iff_referenced
             [where deref = pointee and gen = 11 and r = 2 and s = ?t and calls = "[]"
                and g' = 10 and c = "ReleaseData 11 2"]
  note c = entry_exists_iff_referenced
             [where deref = pointee and gen = 11 and r = 2 and s = ?t' and calls = "[]"
                and g' = 20 and c = "ReleaseData 11 2"]
  note a_refs = a [THEN conjunct2, THEN conjunct2, THEN conjunct2, THEN conjunct1,
                   THEN mp, OF us]
  note a_exact = a [THEN conjunct2, THEN conjunct2, THEN conjunct2, THEN conjunct2,
                    THEN conjunct2, THEN conjunct2, THEN conjunct1, THEN mp, OF us]
  note a_iff = a [THEN conjunct2, THEN conjunct2, THEN conjunct2, THEN conjunct2,
                  THEN conjunct2, THEN conjunct2, THEN conjunct2, THEN conjunct1,
                  THEN mp, OF us]
  note b_exact = b [THEN conjunct2, THEN conjunct2, THEN conjunct2, THEN conjunct2,
                    THEN conjunct2, THEN conjunct2, THEN conjunct1, THEN mp, OF ut]
  note b_iff = b [THEN conjunct2, THEN conjunct2, THEN conjunct2, THEN conjunct2,
                  THEN conjunct2, THEN conjunct2, THEN conjunct2, THEN conjunct1,
                  THEN mp, OF ut]
  note b_gone = b [THEN conjunct2, THEN conjunct2, THEN conjunct2, THEN conjunct2,
                   THEN conjunct2, THEN conjunct2, THEN conjunct2, THEN conjunct2,
                   THEN conjunct2, THEN mp]
  note c_iff = c [THEN conjunct2, THEN conjunct2, THEN conjunct1, THEN mp, OF at']
  have a1: "m_data (releaseData pointee 10 1 ?s)
     = [\<lparr>generator = 20, referencingObjects = [5], data = None\<rparr>,
        \<lparr>generator = 10, referencingObjects = [2], data = None\<rparr>]"
    using a_exact unfolding s by (simp add: pointee_def)
  have a2: "fst (contains pointee 10 (releaseData pointee 10 1 ?s))"
    using a_iff unfolding s by (simp add: pointee_def)
  have a3: "referencers pointee 20 (releaseData pointee 10 1 ?s) = {5}"
    using a_refs rs by (simp add: pointee_def)
  have b1: "m_data ?t' = [\<lparr>generator = 20, referencingObjects = [5], data = None\<rparr>]"
    using b_exact unfolding t by (simp add: pointee_def)
  have b2: "\<not> fst (contains pointee 11 ?t')"
    using b_iff unfolding t by (simp add: pointee_def)
  have b3: "fst (getData pointee 11 ?t') = None"
    using b_gone b2 by simp
  have c1: "fst (contains pointee 20 ?t')"
    using c_iff rt' by simp
  from s a1 a2 a3 b1 b2 b3 c1 show ?thesis by blast
qed

text \<open>
  C7. Repeating \<open>requestData(g, r)\<close> with the same arguments returns \<open>false\<close> and leaves
  every entry as the first call left it; when the first call returned \<open>true\<close>, the entry
  of \<open>g\<close> lists \<open>r\<close> exactly once after both calls. No sequence of public calls ever
  stores a referencer twice in one entry.
\<close>

theorem requestData_idempotent:
  "\<not> fst (requestData deref gen r (snd (requestData deref gen r s)))
   \<and> m_data (snd (requestData deref gen r (snd (requestData deref gen r s))))
       = m_data (snd (requestData deref gen r s))
   \<and> (fst (requestData deref gen r s) \<longrightarrow>
        \<lparr>generator = gen, referencingObjects = [r], data = None\<rparr>
          \<in> set (m_data (snd (requestData deref gen r (snd (requestData deref gen r s))))))
   \<and> no_duplicate_referencers (m_data (run deref calls))"
proof -
  let ?s1 = "snd (requestData deref gen r s)"
  from requestData_found [of deref gen r s]
  obtain i where i: "findEntry deref gen ?s1 = Some i"
    "r \<in> set (referencingObjects (m_data ?s1 ! i))"
    "findEntry deref gen s = None \<longrightarrow>
       m_data ?s1 ! i = \<lparr>generator = gen, referencingObjects = [r], data = None\<rparr>"
    by auto
  from i(1) have second: "\<not> fst (requestData deref gen r ?s1)"
    by (simp add: fst_requestData)
  from i(1,2) have same: "m_data (snd (requestData deref gen r ?s1)) = m_data ?s1"
    by (simp add: m_data_requestData_old)
  from i(1) have "i < length (m_data ?s1)" by (simp add: findEntry_Some_iff)
  then have "m_data ?s1 ! i \<in> set (m_data ?s1)" by (rule nth_mem)
  with i(3) same have once: "fst (requestData deref gen r s) \<longrightarrow>
        \<lparr>generator = gen, referencingObjects = [r], data = None\<rparr>
          \<in> set (m_data (snd (requestData deref gen r ?s1)))"
    by (auto simp: fst_requestData)
  from second same once no_duplicates_run [of deref calls] show ?thesis by blast
qed

text \<open>
  A first request for generator \<open>10\<close> creates its entry; the repeated request changes
  nothing.
\<close>

theorem requestData_idempotent_witness:
  "fst (requestData pointee 10 1 (run pointee [RequestData 20 5] :: example_manager))
   \<and> \<not> fst (requestData pointee 10 1
         (snd (requestData pointee 10 1 (run pointee [RequestData 20 5] :: example_manager))))
   \<and> m_data (snd (requestData pointee 10 1
         (snd (requestData pointee 10 1 (run pointee [RequestData 20 5] :: example_manager)))))
       = [\<lparr>generator = 20, referencingObjects = [5], data = None\<rparr>,
          \<lparr>generator = 10, referencingObjects = [1], data = None\<rparr>]"
proof -
  let ?s = "run pointee [RequestData 20 5] :: example_manager"
  have f: "fst (requestData pointee 10 1 ?s)" by code_simp
  have m: "m_data (snd (requestData pointee 10 1 ?s))
       = [\<lparr>generator = 20, referencingObjects = [5], data = None\<rparr>,
          \<lparr>generator = 10, referencingObjects = [1], data = None\<rparr>]"
    by code_simp
  from requestData_idempotent [of pointee 10 1 ?s "[]"] f m
  show ?thesis by auto
qed

text \<open>
  C4, as stated, fails. The claim lets \<open>data\<close> in \<open>assignData(g, data)\<close> be any
  \<open>DataPtr\<close>, the empty handle included. A new manager, \<open>requestData(10, 1)\<close> (which
  creates the entry and returns \<open>true\<close>), then \<open>assignData(10, DataPtr())\<close>: generator
  \<open>10\<close> is still listed by \<open>pendingGenerators()\<close> after the assignment.
\<close>

theorem pendingGenerators_after_empty_assignData:
  "fst (requestData pointee 10 1 (GeneratorDataManager_new :: example_manager))
   \<and> fst (pendingGenerators (snd (requestData pointee 10 1
           (GeneratorDataManager_new :: example_manager)))) = [10]
   \<and> fst (pendingGenerators (assignData pointee 10 None (snd (requestData pointee 10 1
           (GeneratorDataManager_new :: example_manager))))) = [10]"
  by code_simp

text \<open>
  C4, amended. \<open>pendingGenerators()\<close> returns exactly the generators of the entries whose
  data is absent, each handle once (and, when no two entries hold value-equal generators,
  each generator value once). In such a cache a generator value is listed exactly while
  an entry for it exists and \<open>getData\<close> is empty. So \<open>g\<close> is not listed before its entry
  is created, is listed after the \<open>requestData\<close> call that creates its entry, and is not
  listed after \<open>assignData(g, data)\<close> with a non-empty \<open>data\<close>.
\<close>

theorem pendingGenerators_lists_entries_without_data:
  "set (fst (pendingGenerators s))
       = set (map generator (filter (\<lambda>e. data e = None) (m_data s)))
   \<and> distinct (fst (pendingGenerators s))
   \<and> (unique_generators deref (m_data s) \<longrightarrow>
        distinct (map deref (fst (pendingGenerators s)))
        \<and> (deref gen \<in> deref ` set (fst (pendingGenerators s))
             \<longleftrightarrow> fst (contains deref gen s) \<and> fst (getData deref gen s) = None)
        \<and> deref gen \<notin> deref ` set (fst (pendingGenerators (assignData deref gen (Some d) s))))
   \<and> (\<not> fst (contains deref gen s) \<longrightarrow>
        deref gen \<notin> deref ` set (fst (pendingGenerators s)))
   \<and> (fst (requestData deref gen r s) \<longrightarrow>
        gen \<in> set (fst (pendingGenerators (snd (requestData deref gen r s)))))"
proof -
  have listed: "set (fst (pendingGenerators s))
       = set (map generator (filter (\<lambda>e. data e = None) (m_data s)))"
    by (rule set_pendingGenerators)
  have handles: "distinct (fst (pendingGenerators s))"
    by (simp add: fst_pendingGenerators distinct_foldl_pendingGenerators_step)
  have assigned: "deref gen \<notin> deref ` set (fst (pendingGenerators (assignData deref gen (Some d) s)))"
    if u: "unique_generators deref (m_data s)"
  proof
    let ?t = "assignData deref gen (Some d) s"
    assume "deref gen \<in> deref ` set (fst (pendingGenerators ?t))"
    moreover have "unique_generators deref (m_data ?t)"
      using u by (rule unique_assignData)
    ultimately have "fst (contains deref gen ?t)" "fst (getData deref gen ?t) = None"
      by (simp_all add: pending_value_iff)
    moreover from this(1) have "fst (contains deref gen s)"
      by (simp add: contains_def findEntry_assignData)
    ultimately show False by (simp add: getData_assignData)
  qed
  have before: "deref gen \<notin> deref ` set (fst (pendingGenerators s))"
    if "\<not> fst (contains deref gen s)"
    using that by (auto simp: set_pendingGenerators fst_contains)
  have created: "gen \<in> set (fst (pendingGenerators (snd (requestData deref gen r s))))"
    if "fst (requestData deref gen r s)"
  proof -
    from that have "findEntry deref gen s = None" by (simp add: fst_requestData)
    then have "m_data (snd (requestData deref gen r s))
                 = m_data s @ [\<lparr>generator = gen, referencingObjects = [r], data = None\<rparr>]"
      by (rule m_data_requestData_new)
    then show ?thesis by (simp add: set_pendingGenerators)
  qed
  from listed handles assigned before created
    distinct_values_pendingGenerators [of deref s] pending_value_iff [of deref s gen]
  show ?thesis by blast
qed

text \<open>
  Generator \<open>20\<close> is pending; \<open>10\<close> is requested, listed, and then completed through the
  value-equal handle \<open>11\<close>.
\<close>

theorem pendingGenerators_lists_entries_without_data_witness:
  "unique_generators pointee (m_data (run pointee [RequestData 20 5] :: example_manager))
   \<and> \<not> fst (contains pointee 10 (run pointee [RequestData 20 5] :: example_manager))
   \<and> fst (pendingGenerators (run pointee [RequestData 20 5] :: example_manager)) = [20]
   \<and> fst (requestData pointee 10 1 (run pointee [RequestData 20 5] :: example_manager))
   \<and> fst (pendingGenerators (run pointee [RequestData 20 5, RequestData 10 1] :: example_manager))
       = [20, 10]
   \<and> unique_generators pointee
       (m_data (run pointee [RequestData 20 5, RequestData 10 1] :: example_manager))
   \<and> fst (pendingGenerators (assignData pointee 11 (Some 7)
         (run pointee [RequestData 20 5, RequestData 10 1] :: example_manager))) = [20]"
proof -
  let ?s = "run pointee [RequestData 20 5] :: example_manager"
  let ?t = "run pointee [RequestData 20 5, RequestData 10 1] :: example_manager"
  have us: "unique_generators pointee (m_data ?s)" by code_simp
  have ut: "unique_generators pointee (m_data ?t)" by code_simp
  have c: "\<not> fst (contains pointee 10 ?s)" by code_simp
  have q: "fst (requestData pointee 10 1 ?s)" by code_simp
  have ps: "fst (pendingGenerators ?s) = [20]" by code_simp
  have pt: "fst (pendingGenerators ?t) = [20, 10]" by code_simp
  have pa: "fst (pendingGenerators (assignData pointee 11 (Some 7) ?t)) = [20]" by code_simp
  from pendingGenerators_lists_entries_without_data
         [where deref = pointee and s = ?s and gen = 10 and r = 1 and d = 7]
       pendingGenerators_lists_entries_without_data
         [where deref = pointee and s = ?t and gen = 11 and r = 1 and d = 7]
       us ut c q ps pt pa
  show ?thesis by blast
qed

text \<open>
  C5, as stated, fails. After \<open>requestData(10, 1)\<close> and \<open>assignData(10, 7)\<close> the entry is
  Ready. \<open>assignData(10, DataPtr())\<close> overwrites its data with the empty handle: the same
  entry, never destroyed, with its referencer still listed, is Pending again.
\<close>

theorem data_cleared_by_empty_assignData:
  "fst (contains pointee 10 (run pointee [RequestData 10 1, AssignData 10 (Some 7)] :: example_manager))
   \<and> fst (getData pointee 10
        (run pointee [RequestData 10 1, AssignData 10 (Some 7)] :: example_manager)) = Some 7
   \<and> m_data (assignData pointee 10 None
        (run pointee [RequestData 10 1, AssignData 10 (Some 7)] :: example_manager))
      = [\<lparr>generator = 10, referencingObjects = [1], data = None\<rparr>]
   \<and> fst (contains pointee 10 (assignData pointee 10 None
        (run pointee [RequestData 10 1, AssignData 10 (Some 7)] :: example_manager)))
   \<and> fst (getData pointee 10 (assignData pointee 10 None
        (run pointee [RequestData 10 1, AssignData 10 (Some 7)] :: example_manager))) = None"
  by code_simp

text \<open>
  C5, amended. In a cache where no two entries hold value-equal generators, the data of
  an entry that exists after a public call was changed by that call only if the call was
  \<open>assignData\<close> for a value-equal generator, and then it is the data passed in. Hence,
  along any sequence of public calls that never passes an empty handle to \<open>assignData\<close>,
  an entry that is Ready and exists after every call of the sequence is Ready at the end.
\<close>

theorem data_changes_only_by_assignData:
  "(unique_generators deref (m_data s) \<and> fst (contains deref gen (perform deref s c)) \<longrightarrow>
      fst (getData deref gen (perform deref s c))
        = (case c of
             AssignData g' dat \<Rightarrow>
               if deref g' = deref gen then dat else fst (getData deref gen s)
           | _ \<Rightarrow> fst (getData deref gen s)))
   \<and> (unique_generators deref (m_data s)
        \<and> (\<forall>c \<in> set calls. \<not> assigns_empty c)
        \<and> (\<forall>n \<le> length calls.
              fst (contains deref gen (foldl (perform deref) s (take n calls))))
        \<and> fst (getData deref gen s) \<noteq> None
      \<longrightarrow> fst (getData deref gen (foldl (perform deref) s calls)) \<noteq> None)"
  using getData_perform [of deref s gen c] data_stays_along_run [of deref s calls gen]
  by blast

text \<open>
  Generator \<open>10\<close> is Ready with data \<open>7\<close>; a further request, a release that leaves a
  referencer, and a second assignment keep it Ready.
\<close>

theorem data_changes_only_by_assignData_witness:
  "unique_generators pointee
     (m_data (run pointee [RequestData 10 1, AssignData 10 (Some 7)] :: example_manager))
   \<and> fst (getData pointee 10
        (run pointee [RequestData 10 1, AssignData 10 (Some 7)] :: example_manager)) = Some 7
   \<and> fst (contains pointee 10 (foldl (perform pointee)
        (run pointee [RequestData 10 1, AssignData 10 (Some 7)] :: example_manager)
        [RequestData 11 2, ReleaseData 10 1, AssignData 11 (Some 8)]))
   \<and> fst (getData pointee 10 (perform pointee
        (run pointee [RequestData 10 1, AssignData 10 (Some 7)] :: example_manager)
        (RequestData 11 2))) = Some 7
   \<and> fst (getData pointee 10 (foldl (perform pointee)
        (run pointee [RequestData 10 1, AssignData 10 (Some 7)] :: example_manager)
        [RequestData 11 2, ReleaseData 10 1, AssignData 11 (Some 8)])) \<noteq> None"
proof -
  let ?s = "run pointee [RequestData 10 1, AssignData 10 (Some 7)] :: example_manager"
  let ?calls = "[RequestData 11 2, ReleaseData 10 1, AssignData 11 (Some 8)]
                  :: (nat, nat, nat) call list"
  have u: "unique_generators pointee (m_data ?s)" by code_simp
  have g: "fst (getData pointee 10 ?s) = Some 7" by code_simp
  have ne: "\<forall>c \<in> set ?calls. \<not> assigns_empty c" by simp
  have p0: "fst (contains pointee 10 (foldl (perform pointee) ?s (take 0 ?calls)))"
    by code_simp
  have p1: "fst (contains pointee 10 (foldl (perform pointee) ?s (take 1 ?calls)))"
    by code_simp
  have p2: "fst (contains pointee 10 (foldl (perform pointee) ?s (take 2 ?calls)))"
    by code_simp
  have p3: "fst (contains pointee 10 (foldl (perform pointee) ?s (take 3 ?calls)))"
    by code_simp
  have alive: "\<forall>n \<le> length ?calls.
      fst (contains pointee 10 (foldl (perform pointee) ?s (take n ?calls)))"
  proof (intro allI impI)
    fix n assume "n \<le> length ?calls"
    then consider "n = 0" | "n = 1" | "n = 2" | "n = 3" by fastforce
    then show "fst (contains pointee 10 (foldl (perform pointee) ?s (take n ?calls)))"
      using p0 p1 p2 p3 by cases blast+
  qed
  have c1: "fst (contains pointee 10 (perform pointee ?s (RequestData 11 2)))"
    by code_simp
  from data_changes_only_by_assignData
         [where deref = pointee and s = ?s and gen = 10 and c = "RequestData 11 2"
            and calls = ?calls]
       u g ne alive c1 p3
  show ?thesis by simp
qed

end
